theory Spec2Isabelle
  imports Complex_Main
begin

section \<open>Monte Carlo tree search of \<^verbatim>\<open>AI/ai_MCTS.py\<close>\<close>

text \<open>
  The module builds a search tree of \<^verbatim>\<open>Game_Node\<close> objects that refer to each other
  (children by a list, the parent by a back reference) and are mutated in place. The
  embedding keeps the objects in an explicit store: a node reference is a natural number,
  \<open>nodes\<close> maps a reference to the object it denotes, and \<open>next_id\<close> is the first
  reference that no constructor call has handed out yet.

  The game object, the encoder and the two networks live in other modules. They are taken
  as parameters, bundled in the record \<open>engine\<close>: the attributes the module reads from a
  game, the three methods it calls on one, \<^verbatim>\<open>ai.to_bits\<close>, \<^verbatim>\<open>VALUE_NETWORK\<close> and
  \<^verbatim>\<open>POLICY_NETWORK\<close>. A method that mutates the game in place is a function to the
  mutated game.

  Scores are Python floats and float32 tensors in the source. They are modelled as real
  numbers, so rounding is not modelled, and a tensor of rank one is a list.
\<close>

subsection \<open>Data model\<close>

datatype py_error = AttributeError | ValueError | IndexError | TypeError | TensorFlowError

record ('g, 'm, 'b, 'c) engine =
  legal_moves :: "'g \<Rightarrow> 'm list"
  move_turn :: "'g \<Rightarrow> string"
  stalemate :: "'g \<Rightarrow> bool"
  white_win :: "'g \<Rightarrow> bool option"
  board :: "'g \<Rightarrow> 'c"
  check_for_checkmate :: "'g \<Rightarrow> 'g"
  look_for_draws :: "'g \<Rightarrow> 'g"
  play_machine_move :: "'g \<Rightarrow> 'm \<Rightarrow> 'g"
  to_bits :: "'g \<Rightarrow> 'b"
  VALUE_NETWORK :: "'b \<Rightarrow> real"
  POLICY_NETWORK :: "'b \<Rightarrow> real list"

text \<open>
  The attributes of \<^verbatim>\<open>Game_Node\<close>, in the order \<^verbatim>\<open>__init__\<close> assigns them.
  \<open>parent_node\<close> is \<open>None\<close> where the source stores \<^verbatim>\<open>False\<close>; the two tensors are
  \<open>None\<close> until \<^verbatim>\<open>get_policy_vector\<close> has run.
\<close>

record ('g, 'm, 'b, 'c) Game_Node =
  move :: "'m option"
  game :: 'g
  parent_node :: "nat option"
  bitboard :: 'b
  value_evaluation :: real
  policy_vector :: "real list option"
  policy_vector_legal_moves :: "real list option"
  number_of_visits :: nat
  child_nodes :: "nat list"
  visited_boards :: "'c list"
  wins :: nat
  terminal_game_state :: bool

record ('g, 'm, 'b, 'c) store =
  nodes :: "nat \<Rightarrow> ('g, 'm, 'b, 'c) Game_Node"
  next_id :: nat

subsection \<open>\<^verbatim>\<open>Game_Node.__init__\<close>\<close>

text \<open>
  The encoding is taken from the game as passed in, before \<^verbatim>\<open>check_for_checkmate\<close> and
  \<^verbatim>\<open>look_for_draws\<close> update the game's flags. \<^verbatim>\<open>float(game.white_win)\<close> is 1.0 for
  \<^verbatim>\<open>True\<close> and 0.0 for \<^verbatim>\<open>False\<close>.
\<close>

definition Game_Node_init ::
  "('g, 'm, 'b, 'c) engine \<Rightarrow> 'g \<Rightarrow> 'm option \<Rightarrow> nat option \<Rightarrow> ('g, 'm, 'b, 'c) Game_Node" where
  "Game_Node_init E g mv parent =
     (let bits = to_bits E g;
          g' = look_for_draws E (check_for_checkmate E g)
      in \<lparr> move = mv,
           game = g',
           parent_node = parent,
           bitboard = bits,
           value_evaluation =
             (if stalemate E g'
              then (case white_win E g' of
                      Some w \<Rightarrow> (if w then 1 else 0)
                    | None \<Rightarrow> 0.5)
              else VALUE_NETWORK E bits),
           policy_vector = None,
           policy_vector_legal_moves = None,
           number_of_visits = 0,
           child_nodes = [],
           visited_boards = [],
           wins = 0,
           terminal_game_state = (\<not> length (legal_moves E g') > 0) \<rparr>)"

text \<open>Constructing an object: the new node gets the next free reference.\<close>

definition new_Game_Node ::
  "('g, 'm, 'b, 'c) engine \<Rightarrow> ('g, 'm, 'b, 'c) store \<Rightarrow> 'g \<Rightarrow> 'm option \<Rightarrow> nat option
     \<Rightarrow> ('g, 'm, 'b, 'c) store \<times> nat" where
  "new_Game_Node E s g mv parent =
     (s\<lparr> nodes := (nodes s)(next_id s := Game_Node_init E g mv parent),
         next_id := Suc (next_id s) \<rparr>, next_id s)"

subsection \<open>\<^verbatim>\<open>Game_Node.make_a_move\<close>\<close>

text \<open>
  The loop returns at the first child whose move equals the argument; falling off the end
  of the loop returns Python's \<^verbatim>\<open>None\<close>.
\<close>

fun make_a_move_loop ::
  "('g, 'm, 'b, 'c) store \<Rightarrow> 'm option \<Rightarrow> nat list \<Rightarrow> nat option" where
  "make_a_move_loop s mv [] = None"
| "make_a_move_loop s mv (child_node # rest) =
     (if mv = move (nodes s child_node) then Some child_node
      else make_a_move_loop s mv rest)"

definition make_a_move :: "('g, 'm, 'b, 'c) store \<Rightarrow> nat \<Rightarrow> 'm option \<Rightarrow> nat option" where
  "make_a_move s self mv = make_a_move_loop s mv (child_nodes (nodes s self))"

subsection \<open>\<^verbatim>\<open>Game_Node.get_ucb1_score\<close>\<close>

text \<open>
  \<^verbatim>\<open>self.wins / self.number_of_visits\<close> is evaluated first and raises
  \<^verbatim>\<open>ZeroDivisionError\<close> when the node has no visit; the handler then reads the parent's
  count. With a visit, \<^verbatim>\<open>math.log\<close> of the parent's count runs inside the \<^verbatim>\<open>try\<close>, and
  \<^verbatim>\<open>math.log(0)\<close> raises \<^verbatim>\<open>ValueError\<close>, which the handler does not catch. A node whose
  \<open>parent_node\<close> is \<^verbatim>\<open>False\<close> raises \<^verbatim>\<open>AttributeError\<close> on either path.
\<close>

definition default_exploration_constant :: real where
  "default_exploration_constant = sqrt 2"

definition get_ucb1_score ::
  "('g, 'm, 'b, 'c) store \<Rightarrow> nat \<Rightarrow> real \<Rightarrow> py_error + real" where
  "get_ucb1_score s self exploration_constant =
     (let n = number_of_visits (nodes s self);
          w = wins (nodes s self)
      in case parent_node (nodes s self) of
           None \<Rightarrow> Inl AttributeError
         | Some p \<Rightarrow>
             (let N = number_of_visits (nodes s p)
              in if n = 0
                 then (if N > 0 then Inr (exploration_constant * sqrt (ln (real N)))
                       else Inr 0)
                 else if N = 0 then Inl ValueError
                 else Inr (real w / real n
                           + exploration_constant * sqrt (ln (real N) / real n))))"

subsection \<open>\<^verbatim>\<open>back_propagate\<close>\<close>

text \<open>
  One pass of the \<^verbatim>\<open>while node:\<close> loop. The loop follows \<open>parent_node\<close> until it is
  \<^verbatim>\<open>False\<close>; on a store whose parent references form a cycle it does not return, which
  is the value \<open>None\<close> of the model.
\<close>

definition back_propagate_step ::
  "('g, 'm, 'b, 'c) engine \<Rightarrow> real \<Rightarrow> string \<Rightarrow> ('g, 'm, 'b, 'c) Game_Node
     \<Rightarrow> ('g, 'm, 'b, 'c) Game_Node" where
  "back_propagate_step E result leaf_move_turn node =
     (let node1 = node\<lparr> number_of_visits := number_of_visits node + 1 \<rparr>
      in if move_turn E (game node1) = leaf_move_turn
         then (if result > 0.75 then node1\<lparr> wins := wins node1 + 1 \<rparr> else node1)
         else (if result < 0.25 then node1\<lparr> wins := wins node1 + 1 \<rparr> else node1))"

partial_function (option) back_propagate ::
  "('g, 'm, 'b, 'c) engine \<Rightarrow> ('g, 'm, 'b, 'c) store \<Rightarrow> nat option \<Rightarrow> real \<Rightarrow> string
     \<Rightarrow> ('g, 'm, 'b, 'c) store option" where
  "back_propagate E s node result leaf_move_turn =
     (case node of
        None \<Rightarrow> Some s
      | Some i \<Rightarrow>
          back_propagate E
            (s\<lparr> nodes := (nodes s)(i := back_propagate_step E result leaf_move_turn (nodes s i)) \<rparr>)
            (parent_node (nodes s i)) result leaf_move_turn)"

subsection \<open>The tensor operations the module uses\<close>

text \<open>
  \<^verbatim>\<open>+\<close> on two tensors of rank one adds elementwise; TensorFlow broadcasts a tensor of
  length 1 against the other one and rejects any other pair of different lengths.
  \<^verbatim>\<open>tf.argmax\<close> returns the index of a maximal entry and rejects an empty tensor. Among
  equal maxima the model takes the smallest index; the examples below have no ties.
\<close>

definition tf_add :: "real list \<Rightarrow> real list \<Rightarrow> py_error + real list" where
  "tf_add xs ys =
     (if length xs = length ys then Inr (map2 (+) xs ys)
      else if length xs = 1 then Inr (map (\<lambda>y. hd xs + y) ys)
      else if length ys = 1 then Inr (map (\<lambda>x. x + hd ys) xs)
      else Inl TensorFlowError)"

fun argmax :: "real list \<Rightarrow> nat" where
  "argmax [] = 0"
| "argmax [x] = 0"
| "argmax (x # y # ys) =
     (let j = argmax (y # ys) in if x < (y # ys) ! j then Suc j else 0)"

subsection \<open>\<^verbatim>\<open>Game_Node.select_child\<close>\<close>

text \<open>
  On an empty score tensor the source prints the children and goes on to \<^verbatim>\<open>tf.argmax\<close>,
  which fails; an index past the end of \<open>child_nodes\<close> raises \<^verbatim>\<open>IndexError\<close>.
\<close>

definition select_child ::
  "('g, 'm, 'b, 'c) store \<Rightarrow> nat \<Rightarrow> real list \<Rightarrow> py_error + nat" where
  "select_child s self move_probabilities =
     (if move_probabilities = [] then Inl TensorFlowError
      else if argmax move_probabilities < length (child_nodes (nodes s self))
      then Inr (child_nodes (nodes s self) ! argmax move_probabilities)
      else Inl IndexError)"

subsection \<open>\<^verbatim>\<open>Game_Node.init_all_children\<close>\<close>

text \<open>
  One pass of the loop per legal move: the copy of the game with the move played, the new
  node built from it, and the two appends to the lists of \<open>self\<close>. The board appended is
  the board of the new node's game, the same object.
\<close>

fun init_all_children_loop ::
  "('g, 'm, 'b, 'c) engine \<Rightarrow> nat \<Rightarrow> 'm list \<Rightarrow> ('g, 'm, 'b, 'c) store \<Rightarrow> ('g, 'm, 'b, 'c) store" where
  "init_all_children_loop E self [] s = s"
| "init_all_children_loop E self (mv # mvs) s =
     (let new_game = play_machine_move E (game (nodes s self)) mv;
          (s1, new_node) = new_Game_Node E s new_game (Some mv) (Some self);
          me = nodes s1 self;
          s2 = s1\<lparr> nodes := (nodes s1)(self :=
                 me\<lparr> child_nodes := child_nodes me @ [new_node],
                     visited_boards := visited_boards me @ [board E (game (nodes s1 new_node))] \<rparr>) \<rparr>
      in init_all_children_loop E self mvs s2)"

definition init_all_children ::
  "('g, 'm, 'b, 'c) engine \<Rightarrow> ('g, 'm, 'b, 'c) store \<Rightarrow> nat \<Rightarrow> ('g, 'm, 'b, 'c) store" where
  "init_all_children E s self =
     init_all_children_loop E self (legal_moves E (game (nodes s self))) s"

subsection \<open>\<^verbatim>\<open>Game_Node.find_child_node_information\<close>\<close>

text \<open>The two lists are built child by child; an exception of a child's score ends the loop.\<close>

fun find_child_node_information_loop ::
  "('g, 'm, 'b, 'c) store \<Rightarrow> nat list \<Rightarrow> py_error + (real list \<times> real list)" where
  "find_child_node_information_loop s [] = Inr ([], [])"
| "find_child_node_information_loop s (node # rest) =
     (case get_ucb1_score s node default_exploration_constant of
        Inl e \<Rightarrow> Inl e
      | Inr u \<Rightarrow>
          (case find_child_node_information_loop s rest of
             Inl e \<Rightarrow> Inl e
           | Inr (evaluations, ucb1_scores) \<Rightarrow>
               Inr (value_evaluation (nodes s node) # evaluations, u # ucb1_scores)))"

definition find_child_node_information ::
  "('g, 'm, 'b, 'c) store \<Rightarrow> nat \<Rightarrow> py_error + (real list \<times> real list)" where
  "find_child_node_information s self =
     find_child_node_information_loop s (child_nodes (nodes s self))"

subsection \<open>\<^verbatim>\<open>Game_Node.get_policy_vector\<close>\<close>

text \<open>
  \<^verbatim>\<open>POLICY_NETWORK\<close> returns one row of raw scores; \<^verbatim>\<open>tf.math.reduce_sum\<close> adds all of
  them. Over the reals a division by a zero sum is 0, where the float32 division gives an
  infinity or a NaN, so statements about the quotient assume a sum other than zero.
  \<^verbatim>\<open>tf.zeros\<close> rejects a negative length. An exception ends the search, and the model
  returns no store then. The source writes the length of the padded vector as the number
  218; \<open>MAX_MOVES\<close> names it.
\<close>

definition MAX_MOVES :: nat where
  "MAX_MOVES = 218"

definition get_policy_vector ::
  "('g, 'm, 'b, 'c) engine \<Rightarrow> ('g, 'm, 'b, 'c) store \<Rightarrow> nat \<Rightarrow> py_error + ('g, 'm, 'b, 'c) store" where
  "get_policy_vector E s self =
     (let s1 = (if length (child_nodes (nodes s self)) = 0 then init_all_children E s self else s)
      in case find_child_node_information s1 self of
           Inl e \<Rightarrow> Inl e
         | Inr (evaluations, ucb1_scores) \<Rightarrow>
             (let policy_network_output = POLICY_NETWORK E (bitboard (nodes s1 self));
                  policy_network_probabilities =
                    map (\<lambda>x. x / sum_list policy_network_output) policy_network_output;
                  number_possible_moves = length (legal_moves E (game (nodes s1 self)))
              in case tf_add evaluations ucb1_scores of
                   Inl e \<Rightarrow> Inl e
                 | Inr eu \<Rightarrow>
                     (case tf_add eu (take number_possible_moves policy_network_probabilities) of
                        Inl e \<Rightarrow> Inl e
                      | Inr legal \<Rightarrow>
                          if MAX_MOVES < number_possible_moves then Inl TensorFlowError
                          else Inr (s1\<lparr> nodes := (nodes s1)(self := (nodes s1 self)
                                 \<lparr> policy_vector :=
                                     Some (legal @ replicate (MAX_MOVES - number_possible_moves) 0),
                                   policy_vector_legal_moves := Some legal \<rparr>) \<rparr>))))"

subsection \<open>\<^verbatim>\<open>MCTS\<close>\<close>

text \<open>
  The inner \<^verbatim>\<open>while\<close> loop of an iteration. It has three ways on: to a child, when the
  node has scores and is not terminal; out of the loop, when it has scores and is terminal;
  and around again at the same node, once \<^verbatim>\<open>get_policy_vector\<close> has given it scores. The
  result is the store and the node the loop ends at; \<open>None\<close> is a loop that does not end.
\<close>

partial_function (option) descend ::
  "('g, 'm, 'b, 'c) engine \<Rightarrow> ('g, 'm, 'b, 'c) store \<Rightarrow> nat
     \<Rightarrow> (py_error + ('g, 'm, 'b, 'c) store \<times> nat) option" where
  "descend E s selected_node =
     (if number_of_visits (nodes s selected_node) > 0
      then (case policy_vector_legal_moves (nodes s selected_node) of
              Some scores \<Rightarrow>
                (if \<not> terminal_game_state (nodes s selected_node)
                 then (case select_child s selected_node scores of
                         Inl e \<Rightarrow> Some (Inl e)
                       | Inr child \<Rightarrow> descend E s child)
                 else Some (Inr (s, selected_node)))
            | None \<Rightarrow>
                (case get_policy_vector E s selected_node of
                   Inl e \<Rightarrow> Some (Inl e)
                 | Inr s' \<Rightarrow> descend E s' selected_node))
      else Some (Inr (s, selected_node)))"

text \<open>
  The body of the \<^verbatim>\<open>for\<close> loop. \<open>dirichlet_noise\<close> is the draw of
  \<^verbatim>\<open>np.random.dirichlet\<close> in this iteration. The \<^verbatim>\<open>print\<close> is left out.
\<close>

definition MCTS_iteration ::
  "('g, 'm, 'b, 'c) engine \<Rightarrow> ('g, 'm, 'b, 'c) store \<Rightarrow> nat \<Rightarrow> real list
     \<Rightarrow> (py_error + ('g, 'm, 'b, 'c) store) option" where
  "MCTS_iteration E s root_node dirichlet_noise =
     (case policy_vector_legal_moves (nodes s root_node) of
        None \<Rightarrow> Some (Inl TypeError)
      | Some scores \<Rightarrow>
          (case tf_add scores dirichlet_noise of
             Inl e \<Rightarrow> Some (Inl e)
           | Inr noise_probabilities \<Rightarrow>
               (case select_child s root_node noise_probabilities of
                  Inl e \<Rightarrow> Some (Inl e)
                | Inr selected_node \<Rightarrow>
                    (case descend E s selected_node of
                       None \<Rightarrow> None
                     | Some (Inl e) \<Rightarrow> Some (Inl e)
                     | Some (Inr (s1, leaf)) \<Rightarrow>
                         (let self_win = value_evaluation (nodes s1 leaf)
                          in map_option Inr
                               (back_propagate E s1 (Some leaf) self_win
                                  (move_turn E (game (nodes s1 leaf)))))))))"

text \<open>
  \<open>MCTS_loop E root_node dirichlet k n\<close> runs the iterations \<open>k, \<dots>, k + n - 1\<close> of the
  \<^verbatim>\<open>for\<close> loop, \<open>dirichlet k\<close> being the noise drawn in iteration \<open>k\<close>.
\<close>

fun MCTS_loop ::
  "('g, 'm, 'b, 'c) engine \<Rightarrow> nat \<Rightarrow> (nat \<Rightarrow> real list) \<Rightarrow> nat \<Rightarrow> nat \<Rightarrow> ('g, 'm, 'b, 'c) store
     \<Rightarrow> (py_error + ('g, 'm, 'b, 'c) store) option" where
  "MCTS_loop E root_node dirichlet k 0 s = Some (Inr s)"
| "MCTS_loop E root_node dirichlet k (Suc n) s =
     (case MCTS_iteration E s root_node (dirichlet k) of
        None \<Rightarrow> None
      | Some (Inl e) \<Rightarrow> Some (Inl e)
      | Some (Inr s') \<Rightarrow> MCTS_loop E root_node dirichlet (Suc k) n s')"

text \<open>
  \<open>starting_node = None\<close> builds the root from \<open>game\<close>; otherwise \<open>game\<close> is not looked
  at and the given node loses its parent reference. The result is the store and the root.
\<close>

definition MCTS ::
  "('g, 'm, 'b, 'c) engine \<Rightarrow> ('g, 'm, 'b, 'c) store \<Rightarrow> 'g \<Rightarrow> nat option \<Rightarrow> nat
     \<Rightarrow> (nat \<Rightarrow> real list) \<Rightarrow> (py_error + ('g, 'm, 'b, 'c) store \<times> nat) option" where
  "MCTS E s game0 starting_node iterations dirichlet =
     (let (s0, root_node) =
            (case starting_node of
               None \<Rightarrow> new_Game_Node E s game0 None None
             | Some r \<Rightarrow> (s\<lparr> nodes := (nodes s)(r := (nodes s r)\<lparr> parent_node := None \<rparr>) \<rparr>, r))
      in if terminal_game_state (nodes s0 root_node) then Some (Inr (s0, root_node))
         else (case get_policy_vector E s0 root_node of
                 Inl e \<Rightarrow> Some (Inl e)
               | Inr s1 \<Rightarrow>
                   (case MCTS_loop E root_node dirichlet 0 iterations s1 of
                      None \<Rightarrow> None
                    | Some (Inl e) \<Rightarrow> Some (Inl e)
                    | Some (Inr s2) \<Rightarrow> Some (Inr (s2, root_node)))))"

section \<open>Predicates of the properties\<close>

text \<open>
  \<open>parent_chain s [leaf, \<dots>, r]\<close>: every node of the list has the next one as its
  \<open>parent_node\<close>, and the last one has none.
\<close>

fun parent_chain :: "('g, 'm, 'b, 'c) store \<Rightarrow> nat list \<Rightarrow> bool" where
  "parent_chain s [] = False"
| "parent_chain s [r] = (parent_node (nodes s r) = None)"
| "parent_chain s (i # j # rest) =
     (parent_node (nodes s i) = Some j \<and> parent_chain s (j # rest))"

text \<open>
  \<open>ucb1_defined s c\<close>: \<^verbatim>\<open>get_ucb1_score\<close> of \<open>c\<close> returns a number. The node has a parent,
  and it has no visit or its parent has one.
\<close>

definition ucb1_defined :: "('g, 'm, 'b, 'c) store \<Rightarrow> nat \<Rightarrow> bool" where
  "ucb1_defined s c =
     (case parent_node (nodes s c) of
        None \<Rightarrow> False
      | Some p \<Rightarrow> number_of_visits (nodes s c) = 0 \<or> 0 < number_of_visits (nodes s p))"

text \<open>
  \<open>children_expanded E s self\<close>: the node has one child per legal move of its game, and
  the score of every child is defined.
\<close>

definition children_expanded ::
  "('g, 'm, 'b, 'c) engine \<Rightarrow> ('g, 'm, 'b, 'c) store \<Rightarrow> nat \<Rightarrow> bool" where
  "children_expanded E s self =
     (length (child_nodes (nodes s self)) = length (legal_moves E (game (nodes s self))) \<and>
      list_all (ucb1_defined s) (child_nodes (nodes s self)))"

text \<open>\<open>k\<close> calls of \<^verbatim>\<open>get_policy_vector\<close> on the same node, one after the other.\<close>

fun get_policy_vector_times ::
  "('g, 'm, 'b, 'c) engine \<Rightarrow> nat \<Rightarrow> ('g, 'm, 'b, 'c) store \<Rightarrow> nat
     \<Rightarrow> py_error + ('g, 'm, 'b, 'c) store" where
  "get_policy_vector_times E 0 s self = Inr s"
| "get_policy_vector_times E (Suc k) s self =
     (case get_policy_vector E s self of
        Inl e \<Rightarrow> Inl e
      | Inr s' \<Rightarrow> get_policy_vector_times E k s' self)"

subsection \<open>The parts of \<^verbatim>\<open>get_policy_vector\<close>, named for the proofs\<close>

text \<open>The node \<^verbatim>\<open>init_all_children\<close> builds for the move \<open>mv\<close> of the node \<open>me\<close>.\<close>

definition child_of ::
  "('g, 'm, 'b, 'c) engine \<Rightarrow> ('g, 'm, 'b, 'c) Game_Node \<Rightarrow> nat \<Rightarrow> 'm
     \<Rightarrow> ('g, 'm, 'b, 'c) Game_Node" where
  "child_of E me self mv =
     Game_Node_init E (play_machine_move E (game me) mv) (Some mv) (Some self)"

definition expand ::
  "('g, 'm, 'b, 'c) engine \<Rightarrow> ('g, 'm, 'b, 'c) store \<Rightarrow> nat \<Rightarrow> ('g, 'm, 'b, 'c) store" where
  "expand E s self =
     (if length (child_nodes (nodes s self)) = 0 then init_all_children E s self else s)"

definition ucb1_of :: "('g, 'm, 'b, 'c) store \<Rightarrow> nat \<Rightarrow> real" where
  "ucb1_of s c = projr (get_ucb1_score s c default_exploration_constant)"

definition blended ::
  "('g, 'm, 'b, 'c) engine \<Rightarrow> ('g, 'm, 'b, 'c) store \<Rightarrow> nat \<Rightarrow> real list" where
  "blended E s self =
     map (\<lambda>i. value_evaluation (nodes s (child_nodes (nodes s self) ! i))
               + ucb1_of s (child_nodes (nodes s self) ! i)
               + POLICY_NETWORK E (bitboard (nodes s self)) ! i
                   / sum_list (POLICY_NETWORK E (bitboard (nodes s self))))
       [0 ..< length (legal_moves E (game (nodes s self)))]"

definition with_policy ::
  "('g, 'm, 'b, 'c) engine \<Rightarrow> ('g, 'm, 'b, 'c) store \<Rightarrow> nat \<Rightarrow> ('g, 'm, 'b, 'c) store" where
  "with_policy E s self =
     s\<lparr> nodes := (nodes s)(self := (nodes s self)
          \<lparr> policy_vector := Some (blended E s self
               @ replicate (MAX_MOVES - length (legal_moves E (game (nodes s self)))) 0),
            policy_vector_legal_moves := Some (blended E s self) \<rparr>) \<rparr>"

text \<open>One pass of the loop of \<^verbatim>\<open>init_all_children\<close>, for the move \<open>mv\<close>.\<close>

definition add_child ::
  "('g, 'm, 'b, 'c) engine \<Rightarrow> nat \<Rightarrow> 'm \<Rightarrow> ('g, 'm, 'b, 'c) store \<Rightarrow> ('g, 'm, 'b, 'c) store" where
  "add_child E self mv s =
     (let new_game = play_machine_move E (game (nodes s self)) mv;
          (s1, new_node) = new_Game_Node E s new_game (Some mv) (Some self);
          me = nodes s1 self
      in s1\<lparr> nodes := (nodes s1)(self :=
               me\<lparr> child_nodes := child_nodes me @ [new_node],
                   visited_boards := visited_boards me @ [board E (game (nodes s1 new_node))] \<rparr>) \<rparr>)"

subsection \<open>Invariants of the store\<close>

text \<open>Every constructed node has at most as many wins as visits.\<close>

definition wins_le_visits :: "('g, 'm, 'b, 'c) store \<Rightarrow> bool" where
  "wins_le_visits s = (\<forall>i < next_id s. wins (nodes s i) \<le> number_of_visits (nodes s i))"

text \<open>Every child reference of a constructed node denotes a constructed node.\<close>

definition refs_ok :: "('g, 'm, 'b, 'c) store \<Rightarrow> bool" where
  "refs_ok s = (\<forall>i < next_id s. \<forall>c \<in> set (child_nodes (nodes s i)). c < next_id s)"

text \<open>
  A constructed node whose game has no legal move has no child, and its two tensors are
  absent or hold no score: no legal-move score, and \<open>MAX_MOVES\<close> zeros.
\<close>

definition terminal_inv :: "('g, 'm, 'b, 'c) engine \<Rightarrow> ('g, 'm, 'b, 'c) store \<Rightarrow> bool" where
  "terminal_inv E s =
     (\<forall>i < next_id s. legal_moves E (game (nodes s i)) = [] \<longrightarrow>
        child_nodes (nodes s i) = [] \<and>
        (policy_vector_legal_moves (nodes s i) = None \<or>
         policy_vector_legal_moves (nodes s i) = Some []) \<and>
        (policy_vector (nodes s i) = None \<or>
         policy_vector (nodes s i) = Some (replicate MAX_MOVES 0)))"

text \<open>
  \<open>values_kept s0 s\<close>: the store \<open>s\<close> still holds every node constructed in \<open>s0\<close>, with
  the value evaluation it had there.
\<close>

definition values_kept :: "('g, 'm, 'b, 'c) store \<Rightarrow> ('g, 'm, 'b, 'c) store \<Rightarrow> bool" where
  "values_kept s0 s =
     (next_id s0 \<le> next_id s \<and>
      (\<forall>i < next_id s0. value_evaluation (nodes s i) = value_evaluation (nodes s0 i)))"

section \<open>A small game for the examples\<close>

text \<open>
  Positions are numbers and a move names the position it leads to. Position 0 has the
  moves 1 and 2; position 1 is a win for white; position 2 has the move 3; position 3 is
  a draw. The value network answers three quarters at position 2 and one half elsewhere,
  the policy network 218 equal scores.
\<close>

definition toy_engine :: "(nat, nat, nat, nat) engine" where
  "toy_engine =
     \<lparr> legal_moves = (\<lambda>g. if g = 0 then [1, 2] else if g = 2 then [3] else []),
       move_turn = (\<lambda>g. if g = 0 \<or> g = 3 then ''white'' else ''black''),
       stalemate = (\<lambda>g. g = 1 \<or> g = 3),
       white_win = (\<lambda>g. if g = 1 then Some True else None),
       board = (\<lambda>g. g),
       check_for_checkmate = (\<lambda>g. g),
       look_for_draws = (\<lambda>g. g),
       play_machine_move = (\<lambda>g m. m),
       to_bits = (\<lambda>g. g),
       VALUE_NETWORK = (\<lambda>b. if b = 2 then 3 / 4 else 1 / 2),
       POLICY_NETWORK = (\<lambda>b. replicate 218 1) \<rparr>"

text \<open>A store in which no node has been constructed.\<close>

definition toy_empty :: "(nat, nat, nat, nat) store" where
  "toy_empty = \<lparr> nodes = (\<lambda>i. Game_Node_init toy_engine 0 None None), next_id = 0 \<rparr>"

text \<open>A store that holds the root of position 0 and nothing else.\<close>

definition toy_root :: "(nat, nat, nat, nat) store" where
  "toy_root = \<lparr> nodes = (\<lambda>i. Game_Node_init toy_engine 0 None None), next_id = 1 \<rparr>"

text \<open>The root and its child of position 1, not yet linked from the root.\<close>

definition toy_pair :: "(nat, nat, nat, nat) store" where
  "toy_pair =
     \<lparr> nodes = (\<lambda>i. Game_Node_init toy_engine 0 None None)
                (1 := Game_Node_init toy_engine 1 (Some 1) (Some 0)),
       next_id = 2 \<rparr>"


text \<open>A root with two children that carry the same move, 7.\<close>

definition toy_twins :: "(nat, nat, nat, nat) store" where
  "toy_twins =
     \<lparr> nodes = (\<lambda>i. Game_Node_init toy_engine 0 None None)
                (0 := (Game_Node_init toy_engine 0 None None)\<lparr> child_nodes := [1, 2] \<rparr>,
                 1 := Game_Node_init toy_engine 1 (Some 7) (Some 0),
                 2 := Game_Node_init toy_engine 2 (Some 7) (Some 0)),
       next_id = 3 \<rparr>"

text \<open>The store after one iteration of the search from position 0 with the noise \<open>[0, 1]\<close>.\<close>

definition toy_once :: "(nat, nat, nat, nat) store" where
  "toy_once =
     (case MCTS toy_engine toy_empty 0 None 1 (\<lambda>k. [0, 1]) of
        Some (Inr (s, r)) \<Rightarrow> s
      | _ \<Rightarrow> toy_empty)"

text \<open>
  The descent of the second iteration from the node of position 2, and the whole second
  iteration with the same noise.
\<close>

definition toy_descended :: "(nat, nat, nat, nat) store" where
  "toy_descended =
     (case descend toy_engine toy_once 2 of
        Some (Inr (s, leaf)) \<Rightarrow> s
      | _ \<Rightarrow> toy_once)"

definition toy_twice :: "(nat, nat, nat, nat) store" where
  "toy_twice =
     (case MCTS_iteration toy_engine toy_once 0 [0, 1] of
        Some (Inr s) \<Rightarrow> s
      | _ \<Rightarrow> toy_once)"

text \<open>The same noise \<open>[1/2, 1/2]\<close> in every iteration, and the store after two of them.\<close>

definition toy_noise_even :: "nat \<Rightarrow> real list" where
  "toy_noise_even k = [1 / 2, 1 / 2]"

definition toy_revisited :: "(nat, nat, nat, nat) store" where
  "toy_revisited =
     (case MCTS toy_engine toy_empty 0 None 2 toy_noise_even of
        Some (Inr (s, r)) \<Rightarrow> s
      | _ \<Rightarrow> toy_empty)"

section \<open>Proofs\<close>

subsection \<open>Parent chains and \<^verbatim>\<open>back_propagate\<close>\<close>

lemma back_propagate_None: "back_propagate E s None result lt = Some s"
  by (subst back_propagate.simps) simp

lemma back_propagate_Some:
  "back_propagate E s (Some i) result lt =
     back_propagate E (s\<lparr> nodes := (nodes s)(i := back_propagate_step E result lt (nodes s i)) \<rparr>)
       (parent_node (nodes s i)) result lt"
  by (subst back_propagate.simps) simp

lemma parent_chain_unique:
  "parent_chain s (i # xs) \<Longrightarrow> parent_chain s (i # ys) \<Longrightarrow> xs = ys"
proof (induction xs arbitrary: i ys)
  case Nil
  then show ?case by (cases ys) auto
next
  case (Cons x xs)
  then show ?case by (cases ys) auto
qed

lemma parent_chain_suffix:
  "parent_chain s xs \<Longrightarrow> j \<in> set xs \<Longrightarrow> \<exists>pre post. xs = pre @ j # post \<and> parent_chain s (j # post)"
proof (induction s xs rule: parent_chain.induct)
  case (1 s)
  then show ?case by simp
next
  case (2 s r)
  then have "[r] = [] @ j # [] \<and> parent_chain s (j # [])" by simp
  then show ?case by blast
next
  case (3 s i k rest)
  show ?case
  proof (cases "j = i")
    case True
    with 3 show ?thesis by (intro exI[of _ "[]"] exI[of _ "k # rest"]) simp
  next
    case False
    with 3 obtain pre post where "k # rest = pre @ j # post" "parent_chain s (j # post)" by auto
    then show ?thesis by (intro exI[of _ "i # pre"] exI[of _ post]) simp
  qed
qed

lemma parent_chain_distinct_hd: "parent_chain s (i # rest) \<Longrightarrow> i \<notin> set rest"
proof
  assume c: "parent_chain s (i # rest)" and m: "i \<in> set rest"
  then have "i \<in> set (i # rest)" by simp
  from c have "parent_chain s rest" using m by (cases rest) auto
  from parent_chain_suffix[OF this m] obtain pre post where
    r: "rest = pre @ i # post" and pc: "parent_chain s (i # post)" by blast
  from parent_chain_unique[OF c pc] have "rest = post" .
  with r show False by (metis length_append length_Cons Suc_n_not_le_n le_add2)
qed

lemma parent_chain_frame:
  "\<forall>i. parent_node (nodes s' i) = parent_node (nodes s i) \<Longrightarrow> parent_chain s' xs = parent_chain s xs"
  by (induction s xs rule: parent_chain.induct) auto

lemma step_parent[simp]: "parent_node (back_propagate_step E r lt n) = parent_node n"
  by (simp add: back_propagate_step_def Let_def)

lemma back_propagate_chain_nodes:
  "parent_chain s (leaf # path) \<Longrightarrow>
   \<exists>s'. back_propagate E s (Some leaf) result lt = Some s' \<and> next_id s' = next_id s \<and>
     (\<forall>i. nodes s' i = (if i \<in> set (leaf # path) then back_propagate_step E result lt (nodes s i) else nodes s i))"
proof (induction path arbitrary: s leaf)
  case Nil
  then show ?case by (simp add: back_propagate_Some back_propagate_None)
next
  case (Cons p path)
  let ?s1 = "s\<lparr> nodes := (nodes s)(leaf := back_propagate_step E result lt (nodes s leaf)) \<rparr>"
  from Cons.prems have par: "parent_node (nodes s leaf) = Some p" and ch: "parent_chain s (p # path)" by auto
  have "parent_chain ?s1 (p # path)" using ch by (subst parent_chain_frame[of _ s]) auto
  from Cons.IH[OF this] obtain s' where
    bp: "back_propagate E ?s1 (Some p) result lt = Some s'" and nx: "next_id s' = next_id ?s1"
    and nd: "\<forall>i. nodes s' i = (if i \<in> set (p # path) then back_propagate_step E result lt (nodes ?s1 i) else nodes ?s1 i)"
    by blast
  have notin: "leaf \<notin> set (p # path)" using parent_chain_distinct_hd[OF Cons.prems] .
  have "back_propagate E s (Some leaf) result lt = Some s'"
    using bp par by (simp add: back_propagate_Some)
  moreover have "next_id s' = next_id s" using nx by simp
  moreover have "\<forall>i. nodes s' i = (if i \<in> set (leaf # p # path) then back_propagate_step E result lt (nodes s i) else nodes s i)"
    using nd notin by auto
  ultimately show ?case by blast
qed


subsection \<open>\<^verbatim>\<open>init_all_children\<close> and \<^verbatim>\<open>get_policy_vector\<close>\<close>

lemma ucb1_defined_iff: "ucb1_defined s c \<longleftrightarrow> (\<exists>u. get_ucb1_score s c C = Inr u)"
  by (auto simp: ucb1_defined_def get_ucb1_score_def Let_def split: option.splits)

lemma init_all_children_loop_char:
  "self < next_id s \<Longrightarrow>
   init_all_children_loop E self mvs s =
     s\<lparr> nodes := (\<lambda>i. if i = self
                      then (nodes s self)\<lparr> child_nodes := child_nodes (nodes s self) @ [next_id s ..< next_id s + length mvs],
                                            visited_boards := visited_boards (nodes s self) @ map (\<lambda>mv. board E (game (child_of E (nodes s self) self mv))) mvs \<rparr>
                      else if next_id s \<le> i \<and> i < next_id s + length mvs
                      then child_of E (nodes s self) self (mvs ! (i - next_id s))
                      else nodes s i),
        next_id := next_id s + length mvs \<rparr>"
proof (induction mvs arbitrary: s)
  case Nil
  then show ?case by (cases s) (auto simp: fun_eq_iff)
next
  case (Cons mv mvs)
  let ?s2 = "s\<lparr> nodes := (nodes s)(next_id s := child_of E (nodes s self) self mv,
                  self := (nodes s self)\<lparr> child_nodes := child_nodes (nodes s self) @ [next_id s],
                     visited_boards := visited_boards (nodes s self) @ [board E (game (child_of E (nodes s self) self mv))] \<rparr>),
                next_id := Suc (next_id s) \<rparr>"
  have step: "init_all_children_loop E self (mv # mvs) s = init_all_children_loop E self mvs ?s2"
    using Cons.prems by (cases s) (simp add: new_Game_Node_def Let_def child_of_def)
  have lt: "self < next_id ?s2" using Cons.prems by simp
  have u: "[next_id s..<next_id s + length (mv # mvs)] = next_id s # [Suc (next_id s)..<Suc (next_id s) + length mvs]"
    by (simp add: upt_rec)
  have g: "child_of E (nodes ?s2 self) self = child_of E (nodes s self) self"
    by (simp add: child_of_def fun_eq_iff)
  show ?case
    unfolding step Cons.IH[OF lt] u g using Cons.prems
    by (cases s) (auto simp: fun_eq_iff nth_Cons' Suc_diff_le)
qed


lemma find_child_node_information_loop_defined:
  "list_all (ucb1_defined s) cs \<Longrightarrow>
   find_child_node_information_loop s cs =
     Inr (map (\<lambda>c. value_evaluation (nodes s c)) cs, map (ucb1_of s) cs)"
proof (induction cs)
  case Nil
  then show ?case by simp
next
  case (Cons c cs)
  from Cons.prems have "ucb1_defined s c" by simp
  then obtain u where u: "get_ucb1_score s c default_exploration_constant = Inr u"
    using ucb1_defined_iff by blast
  then have "ucb1_of s c = u" by (simp add: ucb1_of_def)
  with Cons u show ?case by simp
qed

lemma tf_add_same_length: "length xs = length ys \<Longrightarrow> tf_add xs ys = Inr (map2 (+) xs ys)"
  by (simp add: tf_add_def)

lemma get_policy_vector_expanded:
  assumes ex: "children_expanded E (expand E s self) self"
    and le: "length (legal_moves E (game (nodes (expand E s self) self))) \<le> MAX_MOVES"
    and raw: "length (legal_moves E (game (nodes (expand E s self) self)))
                \<le> length (POLICY_NETWORK E (bitboard (nodes (expand E s self) self)))"
  shows "get_policy_vector E s self = Inr (with_policy E (expand E s self) self)"
proof -
  let ?s1 = "expand E s self"
  let ?cs = "child_nodes (nodes ?s1 self)"
  let ?raw = "POLICY_NETWORK E (bitboard (nodes ?s1 self))"
  let ?npm = "length (legal_moves E (game (nodes ?s1 self)))"
  let ?es = "map (\<lambda>c. value_evaluation (nodes ?s1 c)) ?cs"
  let ?us = "map (ucb1_of ?s1) ?cs"
  let ?probs = "map (\<lambda>x. x / sum_list ?raw) ?raw"
  from ex have len: "length ?cs = ?npm" and all: "list_all (ucb1_defined ?s1) ?cs"
    by (simp_all add: children_expanded_def)
  have info: "find_child_node_information ?s1 self = Inr (?es, ?us)"
    unfolding find_child_node_information_def
    by (rule find_child_node_information_loop_defined[OF all])
  have a1: "tf_add ?es ?us = Inr (map2 (+) ?es ?us)"
    by (rule tf_add_same_length) simp
  have a2: "tf_add (map2 (+) ?es ?us) (take ?npm ?probs)
              = Inr (map2 (+) (map2 (+) ?es ?us) (take ?npm ?probs))"
    by (rule tf_add_same_length) (use len raw in simp)
  have bl: "map2 (+) (map2 (+) ?es ?us) (take ?npm ?probs) = blended E ?s1 self"
    using len raw by (intro nth_equalityI) (simp_all add: blended_def)
  show ?thesis
    unfolding get_policy_vector_def expand_def[symmetric]
    using info a1 a2 le
    by (simp add: Let_def bl with_policy_def)
qed


lemma expand_fresh:
  assumes "self < next_id s" "child_nodes (nodes s self) = []"
  shows "expand E s self =
     s\<lparr> nodes := (\<lambda>i. if i = self
                      then (nodes s self)\<lparr> child_nodes := [next_id s ..< next_id s + length (legal_moves E (game (nodes s self)))],
                                            visited_boards := visited_boards (nodes s self) @ map (\<lambda>mv. board E (game (child_of E (nodes s self) self mv))) (legal_moves E (game (nodes s self))) \<rparr>
                      else if next_id s \<le> i \<and> i < next_id s + length (legal_moves E (game (nodes s self)))
                      then child_of E (nodes s self) self (legal_moves E (game (nodes s self)) ! (i - next_id s))
                      else nodes s i),
        next_id := next_id s + length (legal_moves E (game (nodes s self))) \<rparr>"
  using assms by (simp add: expand_def init_all_children_def init_all_children_loop_char cong: if_cong)

lemma expand_expanded: "children_expanded E s self \<Longrightarrow> expand E s self = s"
  by (auto simp: expand_def children_expanded_def init_all_children_def)

lemma child_of_fields [simp]:
  "parent_node (child_of E me self mv) = Some self"
  "number_of_visits (child_of E me self mv) = 0"
  "wins (child_of E me self mv) = 0"
  "move (child_of E me self mv) = Some mv"
  "child_nodes (child_of E me self mv) = []"
  "policy_vector (child_of E me self mv) = None"
  "policy_vector_legal_moves (child_of E me self mv) = None"
  by (simp_all add: child_of_def Game_Node_init_def Let_def)

lemma children_expanded_fresh:
  assumes "self < next_id s" "child_nodes (nodes s self) = []"
  shows "children_expanded E (expand E s self) self"
  using assms(1)
  by (auto simp: expand_fresh[OF assms] children_expanded_def list_all_iff ucb1_defined_def)

lemma expand_cases:
  assumes "self < next_id s \<and> child_nodes (nodes s self) = [] \<or> children_expanded E s self"
  shows "children_expanded E (expand E s self) self"
    and "game (nodes (expand E s self) self) = game (nodes s self)"
    and "bitboard (nodes (expand E s self) self) = bitboard (nodes s self)"
  using assms children_expanded_fresh[of self s E] expand_expanded[of E s self]
  by (auto simp: expand_fresh)

lemma with_policy_fields [simp]:
  "child_nodes (nodes (with_policy E s self) i) = child_nodes (nodes s i)"
  "value_evaluation (nodes (with_policy E s self) i) = value_evaluation (nodes s i)"
  "game (nodes (with_policy E s self) i) = game (nodes s i)"
  "bitboard (nodes (with_policy E s self) i) = bitboard (nodes s i)"
  "move (nodes (with_policy E s self) i) = move (nodes s i)"
  "parent_node (nodes (with_policy E s self) i) = parent_node (nodes s i)"
  "number_of_visits (nodes (with_policy E s self) i) = number_of_visits (nodes s i)"
  "wins (nodes (with_policy E s self) i) = wins (nodes s i)"
  "terminal_game_state (nodes (with_policy E s self) i) = terminal_game_state (nodes s i)"
  "next_id (with_policy E s self) = next_id s"
  by (simp_all add: with_policy_def)

lemma get_ucb1_score_with_policy [simp]:
  "get_ucb1_score (with_policy E s self) c C = get_ucb1_score s c C"
  by (simp add: get_ucb1_score_def Let_def split: option.splits)

lemma with_policy_policy [simp]:
  "policy_vector_legal_moves (nodes (with_policy E s self) self) = Some (blended E s self)"
  "policy_vector (nodes (with_policy E s self) self) =
     Some (blended E s self @ replicate (MAX_MOVES - length (legal_moves E (game (nodes s self)))) 0)"
  by (simp_all add: with_policy_def)

lemma length_blended [simp]: "length (blended E s self) = length (legal_moves E (game (nodes s self)))"
  by (simp add: blended_def)


subsection \<open>Invariants carried through the loops\<close>

lemma init_all_children_loop_add_child:
  "init_all_children_loop E self (mv # mvs) s = init_all_children_loop E self mvs (add_child E self mv s)"
  by (simp add: add_child_def Let_def split: prod.splits)

lemma init_all_children_loop_invariant:
  assumes "\<And>s mv. J s \<Longrightarrow> J (add_child E self mv s)"
  shows "J s \<Longrightarrow> J (init_all_children_loop E self mvs s)"
proof (induction mvs arbitrary: s)
  case Nil
  then show ?case by simp
next
  case (Cons mv mvs)
  then show ?case unfolding init_all_children_loop_add_child using assms by blast
qed

lemma expand_invariant:
  assumes "\<And>s mv. J s \<Longrightarrow> J (add_child E self mv s)"
  shows "J s \<Longrightarrow> J (expand E s self)"
  using init_all_children_loop_invariant[of J E self, OF assms]
  by (simp add: expand_def init_all_children_def)

lemma get_policy_vector_result:
  assumes "get_policy_vector E s self = Inr s'"
  obtains legal where
    "s' = (expand E s self)\<lparr> nodes := (nodes (expand E s self))(self := (nodes (expand E s self) self)
             \<lparr> policy_vector := Some (legal @ replicate
                  (MAX_MOVES - length (legal_moves E (game (nodes (expand E s self) self)))) 0),
               policy_vector_legal_moves := Some legal \<rparr>) \<rparr>"
    "child_nodes (nodes (expand E s self) self) = [] \<and>
       legal_moves E (game (nodes (expand E s self) self)) = [] \<longrightarrow> legal = []"
proof -
  let ?s1 = "expand E s self"
  let ?npm = "length (legal_moves E (game (nodes ?s1 self)))"
  let ?raw = "POLICY_NETWORK E (bitboard (nodes ?s1 self))"
  from assms obtain es us eu legal where
    info: "find_child_node_information ?s1 self = Inr (es, us)"
    and a1: "tf_add es us = Inr eu"
    and a2: "tf_add eu (take ?npm (map (\<lambda>x. x / sum_list ?raw) ?raw)) = Inr legal"
    and s': "s' = ?s1\<lparr> nodes := (nodes ?s1)(self := (nodes ?s1 self)
                 \<lparr> policy_vector := Some (legal @ replicate (MAX_MOVES - ?npm) 0),
                   policy_vector_legal_moves := Some legal \<rparr>) \<rparr>"
    unfolding get_policy_vector_def expand_def[symmetric]
    by (auto simp: Let_def split: sum.splits prod.splits if_splits)
  have "legal = []" if "child_nodes (nodes ?s1 self) = []" "legal_moves E (game (nodes ?s1 self)) = []"
  proof -
    from info that(1) have "es = []" "us = []" by (simp_all add: find_child_node_information_def)
    with a1 have "eu = []" by (simp add: tf_add_def)
    with a2 that(2) show ?thesis by (simp add: tf_add_def)
  qed
  with s' that show ?thesis by blast
qed

lemma get_policy_vector_invariant:
  assumes add: "\<And>s mv. J s \<Longrightarrow> J (add_child E self mv s)"
    and pol: "\<And>s legal. J s \<Longrightarrow>
        (child_nodes (nodes s self) = [] \<and> legal_moves E (game (nodes s self)) = [] \<longrightarrow> legal = []) \<Longrightarrow>
        J (s\<lparr> nodes := (nodes s)(self := (nodes s self)
             \<lparr> policy_vector := Some (legal @ replicate
                  (MAX_MOVES - length (legal_moves E (game (nodes s self)))) 0),
               policy_vector_legal_moves := Some legal \<rparr>) \<rparr>)"
    and run: "get_policy_vector E s self = Inr s'"
    and J: "J s"
  shows "J s'"
proof -
  from get_policy_vector_result[OF run] obtain legal where
    s': "s' = (expand E s self)\<lparr> nodes := (nodes (expand E s self))(self := (nodes (expand E s self) self)
             \<lparr> policy_vector := Some (legal @ replicate
                  (MAX_MOVES - length (legal_moves E (game (nodes (expand E s self) self)))) 0),
               policy_vector_legal_moves := Some legal \<rparr>) \<rparr>"
    and e: "child_nodes (nodes (expand E s self) self) = [] \<and>
       legal_moves E (game (nodes (expand E s self) self)) = [] \<longrightarrow> legal = []"
    by blast
  have "J (expand E s self)" using expand_invariant[of J E self, OF add J] .
  from pol[OF this e] show ?thesis unfolding s' .
qed

lemma add_child_next_id [simp]: "next_id (add_child E self mv s) = Suc (next_id s)"
  by (simp add: add_child_def new_Game_Node_def Let_def)

lemma get_policy_vector_next_id:
  assumes "get_policy_vector E s self = Inr s'"
  shows "next_id s \<le> next_id s'"
proof (rule get_policy_vector_invariant[where J = "\<lambda>t. next_id s \<le> next_id t", OF _ _ assms])
  show "next_id s \<le> next_id s" by simp
qed simp_all

lemma back_propagate_invariant:
  assumes step: "\<And>s i r lt. J s \<Longrightarrow>
      J (s\<lparr> nodes := (nodes s)(i := back_propagate_step E r lt (nodes s i)) \<rparr>)"
    and run: "back_propagate E s node r lt = Some s'"
    and J: "J s"
  shows "J s'"
proof -
  have "E = E \<longrightarrow> J s \<longrightarrow> J s'"
  proof (rule back_propagate.raw_induct[where P = "\<lambda>E' s node r lt s'. E' = E \<longrightarrow> J s \<longrightarrow> J s'", OF _ run],
      goal_cases)
    case (1 bp E' s node r lt s')
    show ?case
    proof (cases node)
      case None
      with 1(2) show ?thesis by simp
    next
      case (Some i)
      with 1(2) have "bp E' (s\<lparr> nodes := (nodes s)(i := back_propagate_step E' r lt (nodes s i)) \<rparr>)
                        (parent_node (nodes s i)) r lt = Some s'" by simp
      from 1(1)[OF this] step show ?thesis by blast
    qed
  qed
  with J show ?thesis by simp
qed

lemma descend_invariant:
  assumes gp0: "\<And>s n s'. J s \<Longrightarrow> W (next_id s) n \<Longrightarrow> get_policy_vector E s n = Inr s' \<Longrightarrow> J s'"
    and sc: "\<And>s n xs c. J s \<Longrightarrow> W (next_id s) n \<Longrightarrow> select_child s n xs = Inr c \<Longrightarrow> W (next_id s) c"
    and mono: "\<And>a b n. W a n \<Longrightarrow> a \<le> b \<Longrightarrow> W b n"
    and run: "descend E s n = Some (Inr (s', leaf))"
    and J: "J s" and W: "W (next_id s) n"
  shows "J s' \<and> W (next_id s') leaf \<and> next_id s \<le> next_id s'"
proof -
  have gp: "J s' \<and> next_id s \<le> next_id s'"
    if "J s" "W (next_id s) n" "get_policy_vector E s n = Inr s'" for s n s'
    using gp0[OF that] get_policy_vector_next_id[OF that(3)] by simp
  let ?P = "\<lambda>E' s n y. E' = E \<longrightarrow> J s \<longrightarrow> W (next_id s) n \<longrightarrow>
              (\<forall>s' leaf. y = Inr (s', leaf) \<longrightarrow> J s' \<and> W (next_id s') leaf \<and> next_id s \<le> next_id s')"
  have "?P E s n (Inr (s', leaf) :: py_error + _)"
  proof (rule descend.raw_induct[where P = ?P, OF _ run], goal_cases)
    case (1 dsc E' s n y)
    note IH = 1(1) and body = 1(2)
    show ?case
    proof (intro impI allI)
      fix s' leaf
      assume E: "E' = E" and J: "J s" and W: "W (next_id s) n" and y: "y = Inr (s', leaf)"
      show "J s' \<and> W (next_id s') leaf \<and> next_id s \<le> next_id s'"
      proof (cases "0 < number_of_visits (nodes s n)")
        case False
        with body y J W show ?thesis by auto
      next
        case visited: True
        show ?thesis
        proof (cases "policy_vector_legal_moves (nodes s n)")
          case None
          show ?thesis
          proof (cases "get_policy_vector E' s n")
            case (Inl e)
            with body visited None y show ?thesis by simp
          next
            case (Inr s1)
            with body visited None have d: "dsc E' s1 n = Some y" by simp
            from gp[OF J W] Inr E have J1: "J s1" and le: "next_id s \<le> next_id s1" by auto
            from mono[OF W le] have W1: "W (next_id s1) n" .
            from IH[OF d] E J1 W1 y le show ?thesis by fastforce
          qed
        next
          case (Some scores)
          show ?thesis
          proof (cases "terminal_game_state (nodes s n)")
            case True
            with body visited Some y J W show ?thesis by auto
          next
            case False
            show ?thesis
            proof (cases "select_child s n scores")
              case (Inl e)
              with body visited Some False y show ?thesis by simp
            next
              case (Inr c)
              with body visited Some False have d: "dsc E' s c = Some y" by simp
              from sc[OF J W Inr] have "W (next_id s) c" .
              with IH[OF d] E J y show ?thesis by fastforce
            qed
          qed
        qed
      qed
    qed
  qed
  with J W show ?thesis by simp
qed


lemma back_propagate_next_id:
  assumes "back_propagate E s node r lt = Some s'"
  shows "next_id s' = next_id s"
  by (rule back_propagate_invariant[where J = "\<lambda>t. next_id t = next_id s", OF _ assms]) simp_all

lemma MCTS_iteration_invariant:
  assumes gp: "\<And>s n s'. J s \<Longrightarrow> W (next_id s) n \<Longrightarrow> get_policy_vector E s n = Inr s' \<Longrightarrow> J s'"
    and sc: "\<And>s n xs c. J s \<Longrightarrow> W (next_id s) n \<Longrightarrow> select_child s n xs = Inr c \<Longrightarrow> W (next_id s) c"
    and mono: "\<And>a b n. W a n \<Longrightarrow> a \<le> b \<Longrightarrow> W b n"
    and step: "\<And>s i r lt. J s \<Longrightarrow>
      J (s\<lparr> nodes := (nodes s)(i := back_propagate_step E r lt (nodes s i)) \<rparr>)"
    and run: "MCTS_iteration E s root_node noise = Some (Inr s')"
    and J: "J s" and W: "W (next_id s) root_node"
  shows "J s' \<and> next_id s \<le> next_id s'"
proof -
  from run obtain scores noisy sel s1 leaf where
    sel: "select_child s root_node noisy = Inr sel"
    and d: "descend E s sel = Some (Inr (s1, leaf))"
    and b: "back_propagate E s1 (Some leaf) (value_evaluation (nodes s1 leaf))
              (move_turn E (game (nodes s1 leaf))) = Some s'"
    by (auto simp: MCTS_iteration_def Let_def split: option.splits sum.splits prod.splits)
  from sc[OF J W sel] have "W (next_id s) sel" .
  from descend_invariant[of J W E, OF gp sc mono d J this]
  have J1: "J s1" and le: "next_id s \<le> next_id s1" by simp_all
  from back_propagate_invariant[of J E, OF step b J1] back_propagate_next_id[OF b] le
  show ?thesis by simp
qed

lemma MCTS_loop_invariant:
  assumes gp: "\<And>s n s'. J s \<Longrightarrow> W (next_id s) n \<Longrightarrow> get_policy_vector E s n = Inr s' \<Longrightarrow> J s'"
    and sc: "\<And>s n xs c. J s \<Longrightarrow> W (next_id s) n \<Longrightarrow> select_child s n xs = Inr c \<Longrightarrow> W (next_id s) c"
    and mono: "\<And>a b n. W a n \<Longrightarrow> a \<le> b \<Longrightarrow> W b n"
    and step: "\<And>s i r lt. J s \<Longrightarrow>
      J (s\<lparr> nodes := (nodes s)(i := back_propagate_step E r lt (nodes s i)) \<rparr>)"
  shows "MCTS_loop E root_node dirichlet k n s = Some (Inr s') \<Longrightarrow> J s \<Longrightarrow>
         W (next_id s) root_node \<Longrightarrow> J s'"
proof (induction n arbitrary: k s)
  case 0
  then show ?case by simp
next
  case (Suc n)
  from Suc.prems(1) obtain s1 where
    it: "MCTS_iteration E s root_node (dirichlet k) = Some (Inr s1)"
    and rest: "MCTS_loop E root_node dirichlet (Suc k) n s1 = Some (Inr s')"
    by (auto split: option.splits sum.splits)
  from MCTS_iteration_invariant[of J W E, OF gp sc mono step it Suc.prems(2,3)]
  have "J s1" "next_id s \<le> next_id s1" by simp_all
  with Suc.IH[OF rest] mono[OF Suc.prems(3)] show ?case by blast
qed

lemma MCTS_invariant:
  assumes gp: "\<And>s n s'. J s \<Longrightarrow> W (next_id s) n \<Longrightarrow> get_policy_vector E s n = Inr s' \<Longrightarrow> J s'"
    and sc: "\<And>s n xs c. J s \<Longrightarrow> W (next_id s) n \<Longrightarrow> select_child s n xs = Inr c \<Longrightarrow> W (next_id s) c"
    and mono: "\<And>a b n. W a n \<Longrightarrow> a \<le> b \<Longrightarrow> W b n"
    and step: "\<And>s i r lt. J s \<Longrightarrow>
      J (s\<lparr> nodes := (nodes s)(i := back_propagate_step E r lt (nodes s i)) \<rparr>)"
    and new: "starting_node = None \<Longrightarrow> J (fst (new_Game_Node E s game0 None None))"
    and clr: "\<And>r. starting_node = Some r \<Longrightarrow>
      J (s\<lparr> nodes := (nodes s)(r := (nodes s r)\<lparr> parent_node := None \<rparr>) \<rparr>)"
    and wnew: "\<And>a. W (Suc a) a"
    and W: "\<And>r. starting_node = Some r \<Longrightarrow> W (next_id s) r"
    and run: "MCTS E s game0 starting_node iterations dirichlet = Some (Inr (s', root_node))"
  shows "J s'"
proof -
  have rest: "J s'"
    if J0: "J s0" and W0: "W (next_id s0) r0"
      and body: "(if terminal_game_state (nodes s0 r0) then Some (Inr (s0, r0))
         else (case get_policy_vector E s0 r0 of
                 Inl e \<Rightarrow> Some (Inl e)
               | Inr s1 \<Rightarrow>
                   (case MCTS_loop E r0 dirichlet 0 iterations s1 of
                      None \<Rightarrow> None
                    | Some (Inl e) \<Rightarrow> Some (Inl e)
                    | Some (Inr s2) \<Rightarrow> Some (Inr (s2, r0))))) = Some (Inr (s', root_node))"
    for s0 r0
  proof (cases "terminal_game_state (nodes s0 r0)")
    case True
    with body J0 show ?thesis by simp
  next
    case False
    with body obtain s1 where g: "get_policy_vector E s0 r0 = Inr s1"
      and l: "MCTS_loop E r0 dirichlet 0 iterations s1 = Some (Inr s')"
      by (auto split: sum.splits option.splits)
    from gp[OF J0 W0 g] have J1: "J s1" .
    from mono[OF W0 get_policy_vector_next_id[OF g]] have W1: "W (next_id s1) r0" .
    from MCTS_loop_invariant[of J W E, OF gp sc mono step l J1 W1] show ?thesis .
  qed
  show ?thesis
  proof (cases starting_node)
    case None
    show ?thesis
    proof (rule rest)
      show "J (fst (new_Game_Node E s game0 None None))" using new[OF None] .
      show "W (next_id (fst (new_Game_Node E s game0 None None))) (next_id s)"
        using wnew by (simp add: new_Game_Node_def)
      show "(if terminal_game_state (nodes (fst (new_Game_Node E s game0 None None)) (next_id s))
             then Some (Inr (fst (new_Game_Node E s game0 None None), next_id s))
             else (case get_policy_vector E (fst (new_Game_Node E s game0 None None)) (next_id s) of
                 Inl e \<Rightarrow> Some (Inl e)
               | Inr s1 \<Rightarrow>
                   (case MCTS_loop E (next_id s) dirichlet 0 iterations s1 of
                      None \<Rightarrow> None
                    | Some (Inl e) \<Rightarrow> Some (Inl e)
                    | Some (Inr s2) \<Rightarrow> Some (Inr (s2, next_id s))))) = Some (Inr (s', root_node))"
        using run None by (auto simp: MCTS_def new_Game_Node_def split: if_splits)
    qed
  next
    case (Some r)
    let ?s0 = "s\<lparr> nodes := (nodes s)(r := (nodes s r)\<lparr> parent_node := None \<rparr>) \<rparr>"
    show ?thesis
    proof (rule rest)
      show "J ?s0" using clr[OF Some] .
      show "W (next_id ?s0) r" using W[OF Some] by simp
      show "(if terminal_game_state (nodes ?s0 r) then Some (Inr (?s0, r))
             else (case get_policy_vector E ?s0 r of
                 Inl e \<Rightarrow> Some (Inl e)
               | Inr s1 \<Rightarrow>
                   (case MCTS_loop E r dirichlet 0 iterations s1 of
                      None \<Rightarrow> None
                    | Some (Inl e) \<Rightarrow> Some (Inl e)
                    | Some (Inr s2) \<Rightarrow> Some (Inr (s2, r))))) = Some (Inr (s', root_node))"
        using run Some by (auto simp: MCTS_def split: if_splits)
    qed
  qed
qed

text \<open>What \<^verbatim>\<open>get_policy_vector\<close> leaves alone in every node that exists.\<close>

lemma get_policy_vector_frame:
  assumes "get_policy_vector E s self = Inr s'"
  shows "\<forall>i < next_id s.
           wins (nodes s' i) = wins (nodes s i) \<and>
           number_of_visits (nodes s' i) = number_of_visits (nodes s i) \<and>
           terminal_game_state (nodes s' i) = terminal_game_state (nodes s i) \<and>
           game (nodes s' i) = game (nodes s i) \<and>
           parent_node (nodes s' i) = parent_node (nodes s i)"
proof (rule get_policy_vector_invariant[where
      J = "\<lambda>t. next_id s \<le> next_id t \<and>
        (\<forall>i < next_id s.
           wins (nodes t i) = wins (nodes s i) \<and>
           number_of_visits (nodes t i) = number_of_visits (nodes s i) \<and>
           terminal_game_state (nodes t i) = terminal_game_state (nodes s i) \<and>
           game (nodes t i) = game (nodes s i) \<and>
           parent_node (nodes t i) = parent_node (nodes s i))", OF _ _ assms, THEN conjunct2])
  show "next_id s \<le> next_id s \<and>
        (\<forall>i < next_id s.
           wins (nodes s i) = wins (nodes s i) \<and>
           number_of_visits (nodes s i) = number_of_visits (nodes s i) \<and>
           terminal_game_state (nodes s i) = terminal_game_state (nodes s i) \<and>
           game (nodes s i) = game (nodes s i) \<and>
           parent_node (nodes s i) = parent_node (nodes s i))" by simp
qed (auto simp: add_child_def new_Game_Node_def Let_def)

subsection \<open>The four ways through the descent loop\<close>

lemma descend_stop:
  "number_of_visits (nodes s n) = 0 \<Longrightarrow> descend E s n = Some (Inr (s, n))"
  by (subst descend.simps) simp

lemma descend_terminal:
  "0 < number_of_visits (nodes s n) \<Longrightarrow> policy_vector_legal_moves (nodes s n) = Some scores \<Longrightarrow>
   terminal_game_state (nodes s n) \<Longrightarrow> descend E s n = Some (Inr (s, n))"
  by (subst descend.simps) simp

lemma descend_child:
  "0 < number_of_visits (nodes s n) \<Longrightarrow> policy_vector_legal_moves (nodes s n) = Some scores \<Longrightarrow>
   \<not> terminal_game_state (nodes s n) \<Longrightarrow> select_child s n scores = Inr c \<Longrightarrow>
   descend E s n = descend E s c"
  by (subst descend.simps) simp

lemma descend_compute:
  "0 < number_of_visits (nodes s n) \<Longrightarrow> policy_vector_legal_moves (nodes s n) = None \<Longrightarrow>
   get_policy_vector E s n = Inr s1 \<Longrightarrow> descend E s n = descend E s1 n"
  by (subst descend.simps) simp

subsection \<open>Evaluating the example game\<close>

lemmas toy_eval =
  MCTS_def MCTS_iteration_def new_Game_Node_def toy_empty_def Game_Node_init_def toy_engine_def
  get_policy_vector_def init_all_children_def find_child_node_information_def
  get_ucb1_score_def tf_add_def MAX_MOVES_def default_exploration_constant_def Let_def
  select_child_def back_propagate_Some back_propagate_None back_propagate_step_def
  sum_list_replicate descend_stop descend_terminal descend_child descend_compute
  numeral_2_eq_2

section \<open>The properties\<close>

subsection \<open>Backpropagation along a parent chain\<close>

text \<open>
  C3. For every chain of nodes from a leaf up to the root, linked by parent references,
  the root having no parent, one call of \<^verbatim>\<open>back_propagate\<close> on the leaf returns, adds
  exactly 1 to the visit count of every node of the chain and to no other, and adds 1 to
  the win count of a node of the chain if and only if its mover is the leaf's mover and
  \<open>result > 0.75\<close>, or its mover is the other one and \<open>result < 0.25\<close>. For
  \<open>0.25 \<le> result \<le> 0.75\<close> no win count changes.
\<close>

theorem back_propagate_chain:
  assumes "parent_chain s (leaf # path)"
  shows "\<exists>s'. back_propagate E s (Some leaf) result leaf_move_turn = Some s' \<and>
     (\<forall>i. number_of_visits (nodes s' i) =
            number_of_visits (nodes s i) + (if i \<in> set (leaf # path) then 1 else 0) \<and>
          wins (nodes s' i) =
            wins (nodes s i) +
              (if i \<in> set (leaf # path) \<and>
                  (move_turn E (game (nodes s i)) = leaf_move_turn \<and> 0.75 < result \<or>
                   move_turn E (game (nodes s i)) \<noteq> leaf_move_turn \<and> result < 0.25)
               then 1 else 0) \<and>
          (0.25 \<le> result \<and> result \<le> 0.75 \<longrightarrow> wins (nodes s' i) = wins (nodes s i)))"
proof -
  from back_propagate_chain_nodes[OF assms, of E result leaf_move_turn]
  obtain s' where run: "back_propagate E s (Some leaf) result leaf_move_turn = Some s'"
    and nd: "\<And>i. nodes s' i =
      (if i \<in> set (leaf # path) then back_propagate_step E result leaf_move_turn (nodes s i)
       else nodes s i)"
    by blast
  have "number_of_visits (nodes s' i) =
          number_of_visits (nodes s i) + (if i \<in> set (leaf # path) then 1 else 0)" for i
    by (simp add: nd back_propagate_step_def Let_def)
  moreover have "wins (nodes s' i) =
            wins (nodes s i) +
              (if i \<in> set (leaf # path) \<and>
                  (move_turn E (game (nodes s i)) = leaf_move_turn \<and> 0.75 < result \<or>
                   move_turn E (game (nodes s i)) \<noteq> leaf_move_turn \<and> result < 0.25)
               then 1 else 0)" for i
    by (simp add: nd back_propagate_step_def Let_def)
  moreover have "0.25 \<le> result \<and> result \<le> 0.75 \<longrightarrow> wins (nodes s' i) = wins (nodes s i)" for i
    by (simp add: nd back_propagate_step_def Let_def)
  ultimately show ?thesis using run by blast
qed

theorem back_propagate_chain_witness:
  "parent_chain toy_pair [1, 0] \<and>
   (\<exists>s'. back_propagate toy_engine toy_pair (Some 1) 0.9 ''black'' = Some s' \<and>
      number_of_visits (nodes s' 1) = 1 \<and> number_of_visits (nodes s' 0) = 1 \<and>
      number_of_visits (nodes s' 2) = number_of_visits (nodes toy_pair 2) \<and>
      wins (nodes s' 1) = 1 \<and> wins (nodes s' 0) = 0)"
proof -
  have chain: "parent_chain toy_pair [1, 0]"
    by (simp add: toy_pair_def Game_Node_init_def Let_def)
  from back_propagate_chain[OF chain, of toy_engine "0.9" "''black''"]
  obtain s' where run: "back_propagate toy_engine toy_pair (Some 1) 0.9 ''black'' = Some s'"
    and v: "\<And>i. number_of_visits (nodes s' i) =
            number_of_visits (nodes toy_pair i) + (if i \<in> set [1, 0] then 1 else 0)"
    and w: "\<And>i. wins (nodes s' i) =
            wins (nodes toy_pair i) +
              (if i \<in> set [1, 0] \<and>
                  (move_turn toy_engine (game (nodes toy_pair i)) = ''black'' \<and> 0.75 < (0.9::real) \<or>
                   move_turn toy_engine (game (nodes toy_pair i)) \<noteq> ''black'' \<and> (0.9::real) < 0.25)
               then 1 else 0)"
    by blast
  have "number_of_visits (nodes s' 1) = 1" "number_of_visits (nodes s' 0) = 1"
    "number_of_visits (nodes s' 2) = number_of_visits (nodes toy_pair 2)"
    by (simp_all add: v toy_pair_def Game_Node_init_def Let_def)
  moreover have "wins (nodes s' 1) = 1" "wins (nodes s' 0) = 0"
    by (simp_all add: w toy_pair_def Game_Node_init_def Let_def toy_engine_def)
  ultimately show ?thesis using chain run by blast
qed

subsection \<open>The blended scores of \<^verbatim>\<open>get_policy_vector\<close>\<close>

text \<open>
  C1. For a node whose children are expanded (the call expands them, or the node already
  has one child per legal move with defined scores), \<^verbatim>\<open>get_policy_vector\<close> returns and
  stores as \<open>policy_vector_legal_moves\<close> the scores with, for every \<open>i\<close> below the
  number of legal moves, entry \<open>i\<close> equal to the value evaluation of child \<open>i\<close> plus
  the UCB1 score of child \<open>i\<close> plus raw policy output \<open>i\<close> divided by the sum of all
  raw policy outputs, the entries past the legal moves included. The game has at most
  \<open>MAX_MOVES\<close> legal moves, the policy network returns at least as many scores as there
  are legal moves, and their sum is not zero.
\<close>

theorem get_policy_vector_blend:
  assumes "self < next_id s \<and> child_nodes (nodes s self) = [] \<or> children_expanded E s self"
    and "length (legal_moves E (game (nodes s self))) \<le> MAX_MOVES"
    and "length (legal_moves E (game (nodes s self))) \<le> length (POLICY_NETWORK E (bitboard (nodes s self)))"
    and "sum_list (POLICY_NETWORK E (bitboard (nodes s self))) \<noteq> 0"
  shows "\<exists>s' legal.
      get_policy_vector E s self = Inr s' \<and>
      policy_vector_legal_moves (nodes s' self) = Some legal \<and>
      length legal = length (legal_moves E (game (nodes s' self))) \<and>
      length (child_nodes (nodes s' self)) = length (legal_moves E (game (nodes s' self))) \<and>
      (\<forall>i < length (legal_moves E (game (nodes s' self))).
         \<exists>u. get_ucb1_score s' (child_nodes (nodes s' self) ! i) default_exploration_constant = Inr u \<and>
             legal ! i = value_evaluation (nodes s' (child_nodes (nodes s' self) ! i)) + u
                         + POLICY_NETWORK E (bitboard (nodes s' self)) ! i
                             / sum_list (POLICY_NETWORK E (bitboard (nodes s' self))))"
proof -
  let ?s1 = "expand E s self"
  let ?s' = "with_policy E ?s1 self"
  note ec = expand_cases[OF assms(1)]
  have run: "get_policy_vector E s self = Inr ?s'"
    by (rule get_policy_vector_expanded) (use ec assms in simp_all)
  have len: "length (child_nodes (nodes ?s1 self)) = length (legal_moves E (game (nodes ?s1 self)))"
    and all: "list_all (ucb1_defined ?s1) (child_nodes (nodes ?s1 self))"
    using ec(1) by (simp_all add: children_expanded_def)
  have "\<exists>u. get_ucb1_score ?s' (child_nodes (nodes ?s' self) ! i) default_exploration_constant = Inr u \<and>
             blended E ?s1 self ! i = value_evaluation (nodes ?s' (child_nodes (nodes ?s' self) ! i)) + u
                         + POLICY_NETWORK E (bitboard (nodes ?s' self)) ! i
                             / sum_list (POLICY_NETWORK E (bitboard (nodes ?s' self)))"
    if i: "i < length (legal_moves E (game (nodes ?s' self)))" for i
  proof -
    from i len have "child_nodes (nodes ?s1 self) ! i \<in> set (child_nodes (nodes ?s1 self))" by simp
    with all have "ucb1_defined ?s1 (child_nodes (nodes ?s1 self) ! i)" by (simp add: list_all_iff)
    then obtain u where u: "get_ucb1_score ?s1 (child_nodes (nodes ?s1 self) ! i) default_exploration_constant = Inr u"
      using ucb1_defined_iff by blast
    then have "ucb1_of ?s1 (child_nodes (nodes ?s1 self) ! i) = u" by (simp add: ucb1_of_def)
    with u i show ?thesis by (simp add: blended_def)
  qed
  with run len show ?thesis by (intro exI[of _ ?s'] exI[of _ "blended E ?s1 self"]) simp
qed


theorem get_policy_vector_blend_witness:
  "(0 < next_id toy_root \<and> child_nodes (nodes toy_root 0) = []) \<and>
   length (legal_moves toy_engine (game (nodes toy_root 0))) \<le> MAX_MOVES \<and>
   length (legal_moves toy_engine (game (nodes toy_root 0)))
     \<le> length (POLICY_NETWORK toy_engine (bitboard (nodes toy_root 0))) \<and>
   sum_list (POLICY_NETWORK toy_engine (bitboard (nodes toy_root 0))) \<noteq> 0 \<and>
   (\<exists>s' legal.
      get_policy_vector toy_engine toy_root 0 = Inr s' \<and>
      policy_vector_legal_moves (nodes s' 0) = Some legal \<and>
      child_nodes (nodes s' 0) = [1, 2] \<and>
      legal ! 0 = 1 + 0 + 1 / 218 \<and> legal ! 1 = 3 / 4 + 0 + 1 / 218)"
proof -
  have h1: "0 < next_id toy_root \<and> child_nodes (nodes toy_root 0) = [] \<or>
            children_expanded toy_engine toy_root 0"
    by (simp add: toy_root_def Game_Node_init_def Let_def)
  have h2: "length (legal_moves toy_engine (game (nodes toy_root 0))) \<le> MAX_MOVES"
    by (simp add: toy_root_def Game_Node_init_def Let_def toy_engine_def MAX_MOVES_def)
  have h3: "length (legal_moves toy_engine (game (nodes toy_root 0)))
              \<le> length (POLICY_NETWORK toy_engine (bitboard (nodes toy_root 0)))"
    by (simp add: toy_root_def Game_Node_init_def Let_def toy_engine_def)
  have h4: "sum_list (POLICY_NETWORK toy_engine (bitboard (nodes toy_root 0))) \<noteq> 0"
    by (simp add: toy_engine_def sum_list_replicate)
  from get_policy_vector_blend[OF h1 h2 h3 h4]
  obtain s' legal where run: "get_policy_vector toy_engine toy_root 0 = Inr s'"
    and pv: "policy_vector_legal_moves (nodes s' 0) = Some legal"
    and sc: "\<And>i. i < length (legal_moves toy_engine (game (nodes s' 0))) \<Longrightarrow>
         \<exists>u. get_ucb1_score s' (child_nodes (nodes s' 0) ! i) default_exploration_constant = Inr u \<and>
             legal ! i = value_evaluation (nodes s' (child_nodes (nodes s' 0) ! i)) + u
                         + POLICY_NETWORK toy_engine (bitboard (nodes s' 0)) ! i
                             / sum_list (POLICY_NETWORK toy_engine (bitboard (nodes s' 0)))"
    by blast
  have s': "s' = with_policy toy_engine (expand toy_engine toy_root 0) 0"
    using run get_policy_vector_expanded[of toy_engine toy_root 0] expand_cases[OF h1] h2 h3
    by simp
  note ev = expand_def init_all_children_def new_Game_Node_def toy_root_def
    Game_Node_init_def Let_def toy_engine_def
  have ch: "child_nodes (nodes s' 0) = [1, 2]"
    by (simp add: s' ev)
  have n: "length (legal_moves toy_engine (game (nodes s' 0))) = 2"
    by (simp add: s' ev)
  from sc[of 0] n obtain u0 where
    "get_ucb1_score s' (child_nodes (nodes s' 0) ! 0) default_exploration_constant = Inr u0"
    "legal ! 0 = value_evaluation (nodes s' (child_nodes (nodes s' 0) ! 0)) + u0
                         + POLICY_NETWORK toy_engine (bitboard (nodes s' 0)) ! 0
                             / sum_list (POLICY_NETWORK toy_engine (bitboard (nodes s' 0)))"
    by auto
  then have l0: "legal ! 0 = 1 + 0 + 1 / 218"
    by (simp add: s' ev get_ucb1_score_def sum_list_replicate)
  from sc[of 1] n obtain u1 where
    "get_ucb1_score s' (child_nodes (nodes s' 0) ! 1) default_exploration_constant = Inr u1"
    "legal ! 1 = value_evaluation (nodes s' (child_nodes (nodes s' 0) ! 1)) + u1
                         + POLICY_NETWORK toy_engine (bitboard (nodes s' 0)) ! 1
                             / sum_list (POLICY_NETWORK toy_engine (bitboard (nodes s' 0)))"
    by auto
  then have l1: "legal ! 1 = 3 / 4 + 0 + 1 / 218"
    by (simp add: s' ev get_ucb1_score_def sum_list_replicate)
  have "0 < next_id toy_root \<and> child_nodes (nodes toy_root 0) = []"
    by (simp add: toy_root_def Game_Node_init_def Let_def)
  with h2 h3 h4 run pv ch l0 l1 show ?thesis by blast
qed

subsection \<open>The UCB1 score\<close>




subsection \<open>Repeated calls of \<^verbatim>\<open>get_policy_vector\<close>\<close>

lemma ucb1_defined_with_policy [simp]:
  "ucb1_defined (with_policy E s self) c = ucb1_defined s c"
  by (simp add: ucb1_defined_def split: option.splits)

lemma children_expanded_with_policy [simp]:
  "children_expanded E (with_policy E s self) self = children_expanded E s self"
  by (simp add: children_expanded_def list_all_iff)

lemma get_policy_vector_times_expanded:
  assumes "children_expanded E s self"
    and "length (legal_moves E (game (nodes s self))) \<le> MAX_MOVES"
    and "length (legal_moves E (game (nodes s self)))
           \<le> length (POLICY_NETWORK E (bitboard (nodes s self)))"
  shows "\<exists>s'. get_policy_vector_times E k s self = Inr s' \<and>
           (\<forall>i. child_nodes (nodes s' i) = child_nodes (nodes s i) \<and>
                move (nodes s' i) = move (nodes s i) \<and>
                game (nodes s' i) = game (nodes s i))"
  using assms
proof (induction k arbitrary: s)
  case 0
  then show ?case by simp
next
  case (Suc k)
  have e: "expand E s self = s" using Suc.prems(1) by (rule expand_expanded)
  have run: "get_policy_vector E s self = Inr (with_policy E s self)"
    using get_policy_vector_expanded[of E s self] Suc.prems by (simp add: e)
  from Suc.IH[of "with_policy E s self"] Suc.prems
  obtain s' where "get_policy_vector_times E k (with_policy E s self) self = Inr s'"
    "\<forall>i. child_nodes (nodes s' i) = child_nodes (nodes (with_policy E s self) i) \<and>
         move (nodes s' i) = move (nodes (with_policy E s self) i) \<and>
         game (nodes s' i) = game (nodes (with_policy E s self) i)"
    by auto
  with run show ?case by simp
qed

text \<open>
  C6. For every node built by the constructor (its child list is empty) whose game has at
  most \<open>MAX_MOVES\<close> legal moves and gets at least as many policy scores, any number
  \<open>k + 1\<close> of \<^verbatim>\<open>get_policy_vector\<close> calls return and leave the node with exactly one
  child per legal move of its game, in the order of the legal moves, child \<open>i\<close> carrying
  move \<open>i\<close>. The children are those of the first call: a later call adds none.
\<close>

theorem get_policy_vector_times_children:
  assumes "self < next_id s" and "child_nodes (nodes s self) = []"
    and "length (legal_moves E (game (nodes s self))) \<le> MAX_MOVES"
    and "length (legal_moves E (game (nodes s self)))
           \<le> length (POLICY_NETWORK E (bitboard (nodes s self)))"
  shows "\<exists>s1 s'.
      get_policy_vector E s self = Inr s1 \<and>
      get_policy_vector_times E (Suc k) s self = Inr s' \<and>
      game (nodes s' self) = game (nodes s self) \<and>
      child_nodes (nodes s' self) = child_nodes (nodes s1 self) \<and>
      length (child_nodes (nodes s' self)) = length (legal_moves E (game (nodes s self))) \<and>
      distinct (child_nodes (nodes s' self)) \<and>
      (\<forall>i < length (legal_moves E (game (nodes s self))).
         move (nodes s' (child_nodes (nodes s' self) ! i))
           = Some (legal_moves E (game (nodes s self)) ! i))"
proof -
  let ?s0 = "expand E s self"
  let ?s1 = "with_policy E ?s0 self"
  let ?n = "length (legal_moves E (game (nodes s self)))"
  have fresh: "self < next_id s \<and> child_nodes (nodes s self) = [] \<or> children_expanded E s self"
    using assms(1,2) by simp
  note ec = expand_cases[OF fresh]
  have run: "get_policy_vector E s self = Inr ?s1"
    by (rule get_policy_vector_expanded) (use ec assms in simp_all)
  have ch: "child_nodes (nodes ?s0 self) = [next_id s ..< next_id s + ?n]"
    by (simp add: expand_fresh[OF assms(1,2)])
  have mv: "move (nodes ?s0 (child_nodes (nodes ?s0 self) ! i))
              = Some (legal_moves E (game (nodes s self)) ! i)" if "i < ?n" for i
    using that assms(1) by (simp add: ch) (simp add: expand_fresh[OF assms(1,2)])
  from get_policy_vector_times_expanded[of E ?s1 self k] ec assms(3,4)
  obtain s' where rest: "get_policy_vector_times E k ?s1 self = Inr s'"
    and same: "\<And>i. child_nodes (nodes s' i) = child_nodes (nodes ?s1 i) \<and>
                move (nodes s' i) = move (nodes ?s1 i) \<and>
                game (nodes s' i) = game (nodes ?s1 i)"
    by auto
  have "get_policy_vector_times E (Suc k) s self = Inr s'"
    using run rest by simp
  moreover have "game (nodes s' self) = game (nodes s self)"
    using same ec(2) by simp
  moreover have "child_nodes (nodes s' self) = child_nodes (nodes ?s1 self)"
    using same by simp
  moreover have "length (child_nodes (nodes s' self)) = ?n"
    using same ch by simp
  moreover have "distinct (child_nodes (nodes s' self))"
    using same ch by simp
  moreover have "\<forall>i < ?n. move (nodes s' (child_nodes (nodes s' self) ! i))
           = Some (legal_moves E (game (nodes s self)) ! i)"
    using same mv by simp
  ultimately show ?thesis using run by blast
qed

theorem get_policy_vector_times_children_witness:
  "0 < next_id toy_root \<and> child_nodes (nodes toy_root 0) = [] \<and>
   length (legal_moves toy_engine (game (nodes toy_root 0))) \<le> MAX_MOVES \<and>
   length (legal_moves toy_engine (game (nodes toy_root 0)))
     \<le> length (POLICY_NETWORK toy_engine (bitboard (nodes toy_root 0))) \<and>
   (\<exists>s'. get_policy_vector_times toy_engine 3 toy_root 0 = Inr s' \<and>
      length (child_nodes (nodes s' 0)) = 2 \<and>
      move (nodes s' (child_nodes (nodes s' 0) ! 0)) = Some 1 \<and>
      move (nodes s' (child_nodes (nodes s' 0) ! 1)) = Some 2)"
proof -
  have h1: "0 < next_id toy_root" and h2: "child_nodes (nodes toy_root 0) = []"
    by (simp_all add: toy_root_def Game_Node_init_def Let_def)
  have h3: "length (legal_moves toy_engine (game (nodes toy_root 0))) \<le> MAX_MOVES"
    by (simp add: toy_root_def Game_Node_init_def Let_def toy_engine_def MAX_MOVES_def)
  have h4: "length (legal_moves toy_engine (game (nodes toy_root 0)))
              \<le> length (POLICY_NETWORK toy_engine (bitboard (nodes toy_root 0)))"
    by (simp add: toy_root_def Game_Node_init_def Let_def toy_engine_def)
  have lm: "legal_moves toy_engine (game (nodes toy_root 0)) = [1, 2]"
    by (simp add: toy_root_def Game_Node_init_def Let_def toy_engine_def)
  have three: "(3::nat) = Suc 2" by simp
  from get_policy_vector_times_children[OF h1 h2 h3 h4, of 2]
  obtain s' where run: "get_policy_vector_times toy_engine 3 toy_root 0 = Inr s'"
    and len: "length (child_nodes (nodes s' 0)) = 2"
    and mv: "\<And>i. i < 2 \<Longrightarrow> move (nodes s' (child_nodes (nodes s' 0) ! i)) = Some ([1, 2] ! i)"
    unfolding lm three[symmetric] by auto
  from mv[of 0] mv[of 1] have "move (nodes s' (child_nodes (nodes s' 0) ! 0)) = Some 1"
    "move (nodes s' (child_nodes (nodes s' 0) ! 1)) = Some 2"
    by simp_all
  with h1 h2 h3 h4 run len show ?thesis by blast
qed

subsection \<open>The padded policy vector\<close>

lemma find_child_node_information_loop_length:
  "find_child_node_information_loop s cs = Inr (es, us) \<Longrightarrow>
   length es = length cs \<and> length us = length cs"
  by (induction cs arbitrary: es us) (auto split: sum.splits prod.splits)

text \<open>
  C8. Once \<^verbatim>\<open>get_policy_vector\<close> has run on a node (it returned, the node has its one
  child per legal move, and the policy network gave at least as many scores as there are
  legal moves), the stored \<open>policy_vector\<close> has length exactly \<open>MAX_MOVES\<close>, which is
  218, its first entries, as many as there are legal moves, are the blended legal-move
  scores, and every entry from the legal-move count on is exactly 0.
\<close>

theorem get_policy_vector_padding:
  assumes "get_policy_vector E s self = Inr s'"
    and "length (child_nodes (nodes s' self)) = length (legal_moves E (game (nodes s' self)))"
    and "length (legal_moves E (game (nodes s' self)))
           \<le> length (POLICY_NETWORK E (bitboard (nodes s' self)))"
  shows "\<exists>pv legal.
      policy_vector (nodes s' self) = Some pv \<and>
      policy_vector_legal_moves (nodes s' self) = Some legal \<and>
      length pv = MAX_MOVES \<and> MAX_MOVES = 218 \<and>
      length legal = length (legal_moves E (game (nodes s' self))) \<and>
      take (length (legal_moves E (game (nodes s' self)))) pv = legal \<and>
      (\<forall>i. length (legal_moves E (game (nodes s' self))) \<le> i \<and> i < MAX_MOVES \<longrightarrow> pv ! i = 0)"
proof -
  let ?s1 = "expand E s self"
  let ?npm = "length (legal_moves E (game (nodes ?s1 self)))"
  let ?raw = "POLICY_NETWORK E (bitboard (nodes ?s1 self))"
  from assms(1) obtain es us eu legal where
    info: "find_child_node_information ?s1 self = Inr (es, us)"
    and a1: "tf_add es us = Inr eu"
    and a2: "tf_add eu (take ?npm (map (\<lambda>x. x / sum_list ?raw) ?raw)) = Inr legal"
    and le: "?npm \<le> MAX_MOVES"
    and s': "s' = ?s1\<lparr> nodes := (nodes ?s1)(self := (nodes ?s1 self)
                 \<lparr> policy_vector := Some (legal @ replicate (MAX_MOVES - ?npm) 0),
                   policy_vector_legal_moves := Some legal \<rparr>) \<rparr>"
    unfolding get_policy_vector_def expand_def[symmetric]
    by (auto simp: Let_def split: sum.splits prod.splits if_splits)
  have same: "child_nodes (nodes s' self) = child_nodes (nodes ?s1 self)"
    "game (nodes s' self) = game (nodes ?s1 self)"
    "bitboard (nodes s' self) = bitboard (nodes ?s1 self)"
    by (simp_all add: s')
  from info have "length es = length (child_nodes (nodes ?s1 self))"
    "length us = length (child_nodes (nodes ?s1 self))"
    using find_child_node_information_loop_length
    by (auto simp: find_child_node_information_def)
  with assms(2) same have l: "length es = ?npm" "length us = ?npm" by simp_all
  with a1 have eu: "length eu = ?npm" by (auto simp: tf_add_def)
  from assms(3) same have "length (take ?npm (map (\<lambda>x. x / sum_list ?raw) ?raw)) = ?npm"
    by simp
  with a2 eu have ll: "length legal = ?npm" by (auto simp: tf_add_def)
  have pv: "policy_vector (nodes s' self) = Some (legal @ replicate (MAX_MOVES - ?npm) 0)"
    and pl: "policy_vector_legal_moves (nodes s' self) = Some legal"
    by (simp_all add: s')
  have "length (legal @ replicate (MAX_MOVES - ?npm) 0) = MAX_MOVES"
    using ll le by simp
  moreover have "take ?npm (legal @ replicate (MAX_MOVES - ?npm) 0) = legal"
    using ll by simp
  moreover have "\<forall>i. ?npm \<le> i \<and> i < MAX_MOVES \<longrightarrow> (legal @ replicate (MAX_MOVES - ?npm) 0) ! i = 0"
    using ll by (auto simp: nth_append)
  ultimately show ?thesis
    using pv pl ll same by (simp add: MAX_MOVES_def)
qed

theorem get_policy_vector_padding_witness:
  "\<exists>s'. get_policy_vector toy_engine toy_root 0 = Inr s' \<and>
     length (child_nodes (nodes s' 0)) = length (legal_moves toy_engine (game (nodes s' 0))) \<and>
     length (legal_moves toy_engine (game (nodes s' 0)))
        \<le> length (POLICY_NETWORK toy_engine (bitboard (nodes s' 0))) \<and>
     (\<exists>pv. policy_vector (nodes s' 0) = Some pv \<and> length pv = 218 \<and>
        take 2 pv = [1 + 1 / 218, 3 / 4 + 1 / 218] \<and> pv ! 2 = 0 \<and> pv ! 217 = 0)"
proof -
  note ev = get_policy_vector_def init_all_children_def new_Game_Node_def toy_root_def
    Game_Node_init_def Let_def toy_engine_def find_child_node_information_def
    get_ucb1_score_def tf_add_def MAX_MOVES_def sum_list_replicate
  obtain s' where run: "get_policy_vector toy_engine toy_root 0 = Inr s'"
    by (simp add: ev)
  have c: "length (child_nodes (nodes s' 0)) = length (legal_moves toy_engine (game (nodes s' 0)))"
    and n: "length (legal_moves toy_engine (game (nodes s' 0))) = 2"
    and k: "length (legal_moves toy_engine (game (nodes s' 0)))
              \<le> length (POLICY_NETWORK toy_engine (bitboard (nodes s' 0)))"
    and l: "policy_vector_legal_moves (nodes s' 0) = Some [1 + 1 / 218, 3 / 4 + 1 / 218]"
    using run by (auto simp: ev)
  from get_policy_vector_padding[OF run c k] n l
  obtain pv where "policy_vector (nodes s' 0) = Some pv" "length pv = 218"
    "take 2 pv = [1 + 1 / 218, 3 / 4 + 1 / 218]"
    "\<forall>i. 2 \<le> i \<and> i < MAX_MOVES \<longrightarrow> pv ! i = 0"
    by auto
  moreover from this have "pv ! 2 = 0" "pv ! 217 = 0" by (simp_all add: MAX_MOVES_def)
  ultimately show ?thesis using run c k by blast
qed

subsection \<open>The value evaluation of a node\<close>

lemma values_kept_refl: "values_kept s s"
  by (simp add: values_kept_def)

lemma values_kept_add_child:
  "values_kept s0 s \<Longrightarrow> values_kept s0 (add_child E self mv s)"
  by (auto simp: values_kept_def add_child_def new_Game_Node_def Let_def)

lemma values_kept_get_policy_vector:
  assumes "get_policy_vector E s self = Inr s'" and "values_kept s0 s"
  shows "values_kept s0 s'"
proof (rule get_policy_vector_invariant[where J = "values_kept s0", OF _ _ assms])
  show "values_kept s0 (add_child E self mv s)" if "values_kept s0 s" for s mv
    using that by (rule values_kept_add_child)
qed (auto simp: values_kept_def)

lemma values_kept_step:
  "values_kept s0 s \<Longrightarrow>
   values_kept s0 (s\<lparr> nodes := (nodes s)(i := back_propagate_step E r lt (nodes s i)) \<rparr>)"
  by (auto simp: values_kept_def back_propagate_step_def Let_def)

text \<open>
  C5. \<^verbatim>\<open>__init__\<close> sets \<open>value_evaluation\<close> to exactly 1 when the game, after
  \<^verbatim>\<open>check_for_checkmate\<close> and \<^verbatim>\<open>look_for_draws\<close>, has its terminal flag set and white
  has won, to 0 when black has won, to 0.5 for a draw, and otherwise to the value
  network's output on the encoding of the game as passed in. No later operation changes
  it: after \<^verbatim>\<open>get_policy_vector\<close>, \<^verbatim>\<open>back_propagate\<close> or a whole run of \<^verbatim>\<open>MCTS\<close>, every
  node that existed before still has the value evaluation it had.
\<close>

theorem value_evaluation_set_once:
  "(stalemate E (look_for_draws E (check_for_checkmate E g)) \<and>
    white_win E (look_for_draws E (check_for_checkmate E g)) = Some True \<longrightarrow>
      value_evaluation (Game_Node_init E g mv parent) = 1) \<and>
   (stalemate E (look_for_draws E (check_for_checkmate E g)) \<and>
    white_win E (look_for_draws E (check_for_checkmate E g)) = Some False \<longrightarrow>
      value_evaluation (Game_Node_init E g mv parent) = 0) \<and>
   (stalemate E (look_for_draws E (check_for_checkmate E g)) \<and>
    white_win E (look_for_draws E (check_for_checkmate E g)) = None \<longrightarrow>
      value_evaluation (Game_Node_init E g mv parent) = 1 / 2) \<and>
   (\<not> stalemate E (look_for_draws E (check_for_checkmate E g)) \<longrightarrow>
      value_evaluation (Game_Node_init E g mv parent) = VALUE_NETWORK E (to_bits E g)) \<and>
   (\<forall>s'. get_policy_vector E s self = Inr s' \<longrightarrow> values_kept s s') \<and>
   (\<forall>s'. back_propagate E s node result leaf_move_turn = Some s' \<longrightarrow> values_kept s s') \<and>
   (\<forall>s' root_node.
      MCTS E s game0 starting_node iterations dirichlet = Some (Inr (s', root_node)) \<longrightarrow>
        values_kept s s' \<and>
        (starting_node = None \<longrightarrow>
           value_evaluation (nodes s' root_node)
             = value_evaluation (Game_Node_init E game0 None None)))"
proof -
  have a: "(stalemate E (look_for_draws E (check_for_checkmate E g)) \<and>
    white_win E (look_for_draws E (check_for_checkmate E g)) = Some True \<longrightarrow>
      value_evaluation (Game_Node_init E g mv parent) = 1) \<and>
   (stalemate E (look_for_draws E (check_for_checkmate E g)) \<and>
    white_win E (look_for_draws E (check_for_checkmate E g)) = Some False \<longrightarrow>
      value_evaluation (Game_Node_init E g mv parent) = 0) \<and>
   (stalemate E (look_for_draws E (check_for_checkmate E g)) \<and>
    white_win E (look_for_draws E (check_for_checkmate E g)) = None \<longrightarrow>
      value_evaluation (Game_Node_init E g mv parent) = 1 / 2) \<and>
   (\<not> stalemate E (look_for_draws E (check_for_checkmate E g)) \<longrightarrow>
      value_evaluation (Game_Node_init E g mv parent) = VALUE_NETWORK E (to_bits E g))"
    by (simp add: Game_Node_init_def Let_def)
  have b: "values_kept s s'" if "get_policy_vector E s self = Inr s'" for s'
    using values_kept_get_policy_vector[OF that values_kept_refl] .
  have c: "values_kept s s'" if "back_propagate E s node result leaf_move_turn = Some s'" for s'
    by (rule back_propagate_invariant[where J = "values_kept s", OF _ that values_kept_refl])
      (rule values_kept_step)
  have d: "values_kept s s' \<and>
        (starting_node = None \<longrightarrow>
           value_evaluation (nodes s' root_node)
             = value_evaluation (Game_Node_init E game0 None None))"
    if run: "MCTS E s game0 starting_node iterations dirichlet = Some (Inr (s', root_node))"
    for s' root_node
  proof -
    define s0 where "s0 = (case starting_node of
        None \<Rightarrow> fst (new_Game_Node E s game0 None None)
      | Some r \<Rightarrow> s\<lparr> nodes := (nodes s)(r := (nodes s r)\<lparr> parent_node := None \<rparr>) \<rparr>)"
    have k: "values_kept s0 s'"
    proof (rule MCTS_invariant[where J = "values_kept s0" and W = "\<lambda>a n. True", OF _ _ _ _ _ _ _ _ run])
      show "values_kept s0 s'" if "values_kept s0 s" "get_policy_vector E s n = Inr s'" for s n s'
        using values_kept_get_policy_vector that by blast
      show "values_kept s0 (s\<lparr> nodes := (nodes s)(i := back_propagate_step E r lt (nodes s i)) \<rparr>)"
        if "values_kept s0 s" for s i r lt
        using that by (rule values_kept_step)
      show "values_kept s0 (fst (new_Game_Node E s game0 None None))" if "starting_node = None"
        using that by (simp add: s0_def values_kept_refl)
      show "values_kept s0 (s\<lparr> nodes := (nodes s)(r := (nodes s r)\<lparr> parent_node := None \<rparr>) \<rparr>)"
        if "starting_node = Some r" for r
        using that by (simp add: s0_def values_kept_refl)
    qed simp_all
    have r: "root_node = next_id s" if "starting_node = None"
      using run that
      by (auto simp: MCTS_def new_Game_Node_def split: if_splits sum.splits option.splits)
    have "values_kept s s'"
      using k by (auto simp: values_kept_def s0_def new_Game_Node_def split: option.splits)
    moreover have "value_evaluation (nodes s' root_node)
             = value_evaluation (Game_Node_init E game0 None None)" if "starting_node = None"
      using k r[OF that] that by (auto simp: values_kept_def s0_def new_Game_Node_def)
    ultimately show ?thesis by blast
  qed
  from a b c d show ?thesis by blast
qed

theorem value_evaluation_set_once_witness:
  "value_evaluation (Game_Node_init toy_engine 1 (Some 1) (Some 0)) = 1 \<and>
   value_evaluation (Game_Node_init toy_engine 3 (Some 3) (Some 2)) = 1 / 2 \<and>
   value_evaluation (Game_Node_init toy_engine 2 (Some 2) (Some 0))
     = VALUE_NETWORK toy_engine (to_bits toy_engine 2) \<and>
   (\<exists>s'. MCTS toy_engine toy_empty 0 None 2 (\<lambda>k. [0, 1]) = Some (Inr (s', 0)) \<and>
      values_kept toy_empty s' \<and>
      value_evaluation (nodes s' 0) = value_evaluation (Game_Node_init toy_engine 0 None None))"
proof -
  note thm1 = value_evaluation_set_once[where E = toy_engine and g = 1 and mv = "Some 1"
      and parent = "Some 0"]
  note thm3 = value_evaluation_set_once[where E = toy_engine and g = 3 and mv = "Some 3"
      and parent = "Some 2"]
  note thm2 = value_evaluation_set_once[where E = toy_engine and g = 2 and mv = "Some 2"
      and parent = "Some 0" and s = toy_empty and ?game0.0 = 0 and starting_node = None
      and iterations = 2 and dirichlet = "\<lambda>k. [0, 1]"]
  have "stalemate toy_engine (look_for_draws toy_engine (check_for_checkmate toy_engine 1)) \<and>
        white_win toy_engine (look_for_draws toy_engine (check_for_checkmate toy_engine 1)) = Some True"
    by (simp add: toy_engine_def)
  with thm1 have v1: "value_evaluation (Game_Node_init toy_engine 1 (Some 1) (Some 0)) = 1"
    by blast
  have "stalemate toy_engine (look_for_draws toy_engine (check_for_checkmate toy_engine 3)) \<and>
        white_win toy_engine (look_for_draws toy_engine (check_for_checkmate toy_engine 3)) = None"
    by (simp add: toy_engine_def)
  with thm3 have v3: "value_evaluation (Game_Node_init toy_engine 3 (Some 3) (Some 2)) = 1 / 2"
    by blast
  have "\<not> stalemate toy_engine (look_for_draws toy_engine (check_for_checkmate toy_engine 2))"
    by (simp add: toy_engine_def)
  with thm2 have v2: "value_evaluation (Game_Node_init toy_engine 2 (Some 2) (Some 0))
     = VALUE_NETWORK toy_engine (to_bits toy_engine 2)"
    by blast
  obtain s' where run: "MCTS toy_engine toy_empty 0 None 2 (\<lambda>k. [0, 1]) = Some (Inr (s', 0))"
    by (simp add: toy_eval)
  with thm2 have "values_kept toy_empty s' \<and>
      value_evaluation (nodes s' 0) = value_evaluation (Game_Node_init toy_engine 0 None None)"
    by blast
  with v1 v3 v2 run show ?thesis by blast
qed

subsection \<open>Wins never exceed visits\<close>

lemma wins_le_visits_add_child:
  "wins_le_visits s \<Longrightarrow> wins_le_visits (add_child E self mv s)"
  by (auto simp: wins_le_visits_def add_child_def new_Game_Node_def Game_Node_init_def Let_def
      less_Suc_eq)

lemma wins_le_visits_get_policy_vector:
  assumes "get_policy_vector E s self = Inr s'" and "wins_le_visits s"
  shows "wins_le_visits s'"
proof (rule get_policy_vector_invariant[where J = wins_le_visits, OF _ _ assms])
  show "wins_le_visits (add_child E self mv s)" if "wins_le_visits s" for s mv
    using that by (rule wins_le_visits_add_child)
qed (auto simp: wins_le_visits_def)

lemma wins_le_visits_step:
  "wins_le_visits s \<Longrightarrow>
   wins_le_visits (s\<lparr> nodes := (nodes s)(i := back_propagate_step E r lt (nodes s i)) \<rparr>)"
  by (auto simp: wins_le_visits_def back_propagate_step_def Let_def)

text \<open>
  C7. For every constructed node \<open>0 \<le> wins \<le> number_of_visits\<close> holds at all times
  (the counters are natural numbers, so the lower bound needs no proof). Both counters are
  0 after \<^verbatim>\<open>__init__\<close>; one pass of the loop of \<^verbatim>\<open>back_propagate\<close> adds 1 to the visits
  and at most 1 to the wins; \<^verbatim>\<open>get_policy_vector\<close> changes no counter of a node that
  exists; and constructing a node, \<^verbatim>\<open>get_policy_vector\<close>, \<^verbatim>\<open>back_propagate\<close> and a whole
  run of \<^verbatim>\<open>MCTS\<close> keep the inequality.
\<close>

theorem wins_le_visits_always:
  "(wins (Game_Node_init E g mv parent) = 0 \<and>
    number_of_visits (Game_Node_init E g mv parent) = 0) \<and>
   (number_of_visits (back_propagate_step E result leaf_move_turn node0) = number_of_visits node0 + 1 \<and>
    wins node0 \<le> wins (back_propagate_step E result leaf_move_turn node0) \<and>
    wins (back_propagate_step E result leaf_move_turn node0) \<le> wins node0 + 1) \<and>
   (\<forall>s'. get_policy_vector E s self = Inr s' \<longrightarrow>
      (\<forall>i < next_id s. wins (nodes s' i) = wins (nodes s i) \<and>
         number_of_visits (nodes s' i) = number_of_visits (nodes s i))) \<and>
   (wins_le_visits s \<longrightarrow>
      wins_le_visits (fst (new_Game_Node E s g mv parent)) \<and>
      (\<forall>s'. get_policy_vector E s self = Inr s' \<longrightarrow> wins_le_visits s') \<and>
      (\<forall>s'. back_propagate E s node result leaf_move_turn = Some s' \<longrightarrow> wins_le_visits s') \<and>
      (\<forall>s' root_node. MCTS E s game0 starting_node iterations dirichlet = Some (Inr (s', root_node))
         \<longrightarrow> wins_le_visits s'))"
proof -
  have a: "wins (Game_Node_init E g mv parent) = 0 \<and>
    number_of_visits (Game_Node_init E g mv parent) = 0"
    by (simp add: Game_Node_init_def Let_def)
  have b: "number_of_visits (back_propagate_step E result leaf_move_turn node0) = number_of_visits node0 + 1 \<and>
    wins node0 \<le> wins (back_propagate_step E result leaf_move_turn node0) \<and>
    wins (back_propagate_step E result leaf_move_turn node0) \<le> wins node0 + 1"
    by (simp add: back_propagate_step_def Let_def)
  have c: "\<forall>s'. get_policy_vector E s self = Inr s' \<longrightarrow>
      (\<forall>i < next_id s. wins (nodes s' i) = wins (nodes s i) \<and>
         number_of_visits (nodes s' i) = number_of_visits (nodes s i))"
    using get_policy_vector_frame by blast
  have d: "wins_le_visits (fst (new_Game_Node E s g mv parent))" if "wins_le_visits s"
    using that
    by (auto simp: wins_le_visits_def new_Game_Node_def Game_Node_init_def Let_def less_Suc_eq)
  have e: "wins_le_visits s'" if "wins_le_visits s" "get_policy_vector E s self = Inr s'" for s'
    using wins_le_visits_get_policy_vector that by blast
  have f: "wins_le_visits s'"
    if "wins_le_visits s" "back_propagate E s node result leaf_move_turn = Some s'" for s'
    by (rule back_propagate_invariant[where J = wins_le_visits, OF _ that(2,1)])
      (rule wins_le_visits_step)
  have h: "wins_le_visits s'"
    if "wins_le_visits s"
      "MCTS E s game0 starting_node iterations dirichlet = Some (Inr (s', root_node))"
    for s' root_node
  proof (rule MCTS_invariant[where J = wins_le_visits and W = "\<lambda>a n. True", OF _ _ _ _ _ _ _ _ that(2)])
    show "wins_le_visits s'" if "wins_le_visits s" "get_policy_vector E s n = Inr s'" for s n s'
      using wins_le_visits_get_policy_vector that by blast
    show "wins_le_visits (s\<lparr> nodes := (nodes s)(i := back_propagate_step E r lt (nodes s i)) \<rparr>)"
      if "wins_le_visits s" for s i r lt
      using that by (rule wins_le_visits_step)
    show "wins_le_visits (fst (new_Game_Node E s game0 None None))"
      using that(1)
      by (auto simp: wins_le_visits_def new_Game_Node_def Game_Node_init_def Let_def less_Suc_eq)
    show "wins_le_visits (s\<lparr> nodes := (nodes s)(r := (nodes s r)\<lparr> parent_node := None \<rparr>) \<rparr>)"
      for r
      using that(1) by (auto simp: wins_le_visits_def)
  qed simp_all
  from a b c d e f h show ?thesis by blast
qed

theorem wins_le_visits_always_witness:
  "wins_le_visits toy_empty \<and>
   (\<exists>s'. MCTS toy_engine toy_empty 0 None 2 (\<lambda>k. [1 / 2, 1 / 2]) = Some (Inr (s', 0)) \<and>
      wins_le_visits s' \<and>
      wins (nodes s' 0) = 0 \<and> number_of_visits (nodes s' 0) = 2 \<and>
      wins (nodes s' 1) = 2 \<and> number_of_visits (nodes s' 1) = 2)"
proof -
  have inv: "wins_le_visits toy_empty"
    by (simp add: wins_le_visits_def toy_empty_def)
  obtain s' where run: "MCTS toy_engine toy_empty 0 None 2 (\<lambda>k. [1 / 2, 1 / 2]) = Some (Inr (s', 0))"
    by (simp add: toy_eval)
  from wins_le_visits_always[where E = toy_engine and s = toy_empty and ?game0.0 = 0
      and starting_node = None and iterations = 2 and dirichlet = "\<lambda>k. [1 / 2, 1 / 2]"] inv run
  have post: "wins_le_visits s'" by blast
  have "wins (nodes s' 0) = 0" "number_of_visits (nodes s' 0) = 2"
    "wins (nodes s' 1) = 2" "number_of_visits (nodes s' 1) = 2"
    using run by (auto simp: toy_eval)
  with inv run post show ?thesis by blast
qed

subsection \<open>Terminal nodes\<close>

lemma select_child_member:
  "select_child s n xs = Inr c \<Longrightarrow> c \<in> set (child_nodes (nodes s n))"
  by (auto simp: select_child_def split: if_splits)

lemma add_child_nodes:
  assumes "self < next_id s"
  shows "nodes (add_child E self mv s) =
     (nodes s)(next_id s := child_of E (nodes s self) self mv,
               self := (nodes s self)
                 \<lparr> child_nodes := child_nodes (nodes s self) @ [next_id s],
                   visited_boards := visited_boards (nodes s self)
                     @ [board E (game (child_of E (nodes s self) self mv))] \<rparr>)"
  using assms by (simp add: add_child_def new_Game_Node_def Let_def child_of_def)

lemma terminal_add_child:
  assumes "refs_ok s \<and> terminal_inv E s \<and> n < next_id s \<and> legal_moves E (game (nodes s n)) \<noteq> []"
  shows "refs_ok (add_child E n mv s) \<and> terminal_inv E (add_child E n mv s) \<and>
         n < next_id (add_child E n mv s) \<and> legal_moves E (game (nodes (add_child E n mv s) n)) \<noteq> []"
proof -
  from assms have r: "refs_ok s" and t: "terminal_inv E s" and n: "n < next_id s"
    and l: "legal_moves E (game (nodes s n)) \<noteq> []" by simp_all
  note nd = add_child_nodes[OF n, of E mv]
  have "refs_ok (add_child E n mv s)"
    unfolding refs_ok_def
  proof (intro allI impI ballI)
    fix i c
    assume i: "i < next_id (add_child E n mv s)"
      and c: "c \<in> set (child_nodes (nodes (add_child E n mv s) i))"
    consider "i = n" | "i \<noteq> n" "i = next_id s" | "i \<noteq> n" "i < next_id s"
      using i by (auto simp: less_Suc_eq)
    then show "c < next_id (add_child E n mv s)"
    proof cases
      case 1
      with c r n show ?thesis by (auto simp: nd refs_ok_def less_Suc_eq)
    next
      case 2
      with c show ?thesis by (simp add: nd)
    next
      case 3
      with c r show ?thesis by (auto simp: nd refs_ok_def less_Suc_eq)
    qed
  qed
  moreover have "terminal_inv E (add_child E n mv s)"
    unfolding terminal_inv_def
  proof (intro allI impI)
    fix i
    assume i: "i < next_id (add_child E n mv s)"
      and e: "legal_moves E (game (nodes (add_child E n mv s) i)) = []"
    consider "i = n" | "i \<noteq> n" "i = next_id s" | "i \<noteq> n" "i < next_id s"
      using i by (auto simp: less_Suc_eq)
    then show "child_nodes (nodes (add_child E n mv s) i) = [] \<and>
        (policy_vector_legal_moves (nodes (add_child E n mv s) i) = None \<or>
         policy_vector_legal_moves (nodes (add_child E n mv s) i) = Some []) \<and>
        (policy_vector (nodes (add_child E n mv s) i) = None \<or>
         policy_vector (nodes (add_child E n mv s) i) = Some (replicate MAX_MOVES 0))"
    proof cases
      case 1
      with e l show ?thesis by (simp add: nd)
    next
      case 2
      then show ?thesis by (simp add: nd)
    next
      case 3
      with e t show ?thesis by (simp add: nd terminal_inv_def)
    qed
  qed
  moreover have "legal_moves E (game (nodes (add_child E n mv s) n)) \<noteq> []"
    using l by (simp add: nd)
  ultimately show ?thesis using n by simp
qed

lemma terminal_set_policy:
  assumes inv: "refs_ok s \<and> terminal_inv E s"
    and l: "legal_moves E (game (nodes s n)) = [] \<longrightarrow> legal = []"
  shows "refs_ok (s\<lparr> nodes := (nodes s)(n := (nodes s n)
             \<lparr> policy_vector := Some (legal @ replicate
                  (MAX_MOVES - length (legal_moves E (game (nodes s n)))) 0),
               policy_vector_legal_moves := Some legal \<rparr>) \<rparr>) \<and>
         terminal_inv E (s\<lparr> nodes := (nodes s)(n := (nodes s n)
             \<lparr> policy_vector := Some (legal @ replicate
                  (MAX_MOVES - length (legal_moves E (game (nodes s n)))) 0),
               policy_vector_legal_moves := Some legal \<rparr>) \<rparr>)"
    (is "refs_ok ?s' \<and> terminal_inv E ?s'")
proof -
  have ch: "child_nodes (nodes ?s' i) = child_nodes (nodes s i)" for i by simp
  have gm: "game (nodes ?s' i) = game (nodes s i)" for i by simp
  have nx: "next_id ?s' = next_id s" by simp
  have other: "policy_vector (nodes ?s' i) = policy_vector (nodes s i)"
    "policy_vector_legal_moves (nodes ?s' i) = policy_vector_legal_moves (nodes s i)"
    if "i \<noteq> n" for i
    using that by simp_all
  have self: "policy_vector_legal_moves (nodes ?s' n) = Some []"
    "policy_vector (nodes ?s' n) = Some (replicate MAX_MOVES 0)"
    if "legal_moves E (game (nodes s n)) = []"
    using that l by simp_all
  have "refs_ok ?s'"
    using inv unfolding refs_ok_def ch nx by simp
  moreover have "terminal_inv E ?s'"
    unfolding terminal_inv_def ch gm nx
  proof (intro allI impI)
    fix i
    assume i: "i < next_id s" and e: "legal_moves E (game (nodes s i)) = []"
    from inv i e have old: "child_nodes (nodes s i) = [] \<and>
        (policy_vector_legal_moves (nodes s i) = None \<or>
         policy_vector_legal_moves (nodes s i) = Some []) \<and>
        (policy_vector (nodes s i) = None \<or>
         policy_vector (nodes s i) = Some (replicate MAX_MOVES 0))"
      by (simp add: terminal_inv_def)
    show "child_nodes (nodes s i) = [] \<and>
        (policy_vector_legal_moves (nodes ?s' i) = None \<or>
         policy_vector_legal_moves (nodes ?s' i) = Some []) \<and>
        (policy_vector (nodes ?s' i) = None \<or>
         policy_vector (nodes ?s' i) = Some (replicate MAX_MOVES 0))"
    proof (cases "i = n")
      case True
      with e self old show ?thesis by blast
    next
      case False
      with other[OF False] old show ?thesis by metis
    qed
  qed
  ultimately show ?thesis ..
qed

lemma terminal_get_policy_vector:
  assumes run: "get_policy_vector E s n = Inr s'"
    and inv: "refs_ok s \<and> terminal_inv E s" and n: "n < next_id s"
  shows "refs_ok s' \<and> terminal_inv E s'"
proof -
  from get_policy_vector_result[OF run] obtain legal where
    s': "s' = (expand E s n)\<lparr> nodes := (nodes (expand E s n))(n := (nodes (expand E s n) n)
             \<lparr> policy_vector := Some (legal @ replicate
                  (MAX_MOVES - length (legal_moves E (game (nodes (expand E s n) n)))) 0),
               policy_vector_legal_moves := Some legal \<rparr>) \<rparr>"
    and e: "child_nodes (nodes (expand E s n) n) = [] \<and>
       legal_moves E (game (nodes (expand E s n) n)) = [] \<longrightarrow> legal = []"
    by blast
  have ex: "refs_ok (expand E s n) \<and> terminal_inv E (expand E s n) \<and> n < next_id (expand E s n)"
  proof (cases "legal_moves E (game (nodes s n)) = []")
    case True
    with inv n have "child_nodes (nodes s n) = []" by (simp add: terminal_inv_def)
    with True have "expand E s n = s" by (simp add: expand_def init_all_children_def)
    with inv n show ?thesis by simp
  next
    case False
    have "refs_ok (expand E s n) \<and> terminal_inv E (expand E s n) \<and> n < next_id (expand E s n) \<and>
          legal_moves E (game (nodes (expand E s n) n)) \<noteq> []"
    proof (rule expand_invariant[where J = "\<lambda>t. refs_ok t \<and> terminal_inv E t \<and> n < next_id t \<and>
          legal_moves E (game (nodes t n)) \<noteq> []"])
      show "refs_ok (add_child E n mv s) \<and> terminal_inv E (add_child E n mv s) \<and>
            n < next_id (add_child E n mv s) \<and>
            legal_moves E (game (nodes (add_child E n mv s) n)) \<noteq> []"
        if "refs_ok s \<and> terminal_inv E s \<and> n < next_id s \<and> legal_moves E (game (nodes s n)) \<noteq> []"
        for s mv
        using that by (rule terminal_add_child)
      show "refs_ok s \<and> terminal_inv E s \<and> n < next_id s \<and> legal_moves E (game (nodes s n)) \<noteq> []"
        using inv n False by simp
    qed
    then show ?thesis by simp
  qed
  have l: "legal_moves E (game (nodes (expand E s n) n)) = [] \<longrightarrow> legal = []"
  proof
    assume t: "legal_moves E (game (nodes (expand E s n) n)) = []"
    with ex have "child_nodes (nodes (expand E s n) n) = []" by (simp add: terminal_inv_def)
    with e t show "legal = []" by simp
  qed
  from ex have "refs_ok (expand E s n) \<and> terminal_inv E (expand E s n)" by simp
  from terminal_set_policy[OF this l] show ?thesis unfolding s' .
qed

lemma back_propagate_step_fields [simp]:
  "game (back_propagate_step E r lt node) = game node"
  "child_nodes (back_propagate_step E r lt node) = child_nodes node"
  "policy_vector (back_propagate_step E r lt node) = policy_vector node"
  "policy_vector_legal_moves (back_propagate_step E r lt node) = policy_vector_legal_moves node"
  by (simp_all add: back_propagate_step_def Let_def)

lemma terminal_step:
  assumes "refs_ok s \<and> terminal_inv E s"
  shows "refs_ok (s\<lparr> nodes := (nodes s)(i := back_propagate_step E r lt (nodes s i)) \<rparr>) \<and>
   terminal_inv E (s\<lparr> nodes := (nodes s)(i := back_propagate_step E r lt (nodes s i)) \<rparr>)"
    (is "refs_ok ?s' \<and> terminal_inv E ?s'")
proof -
  have f: "game (nodes ?s' j) = game (nodes s j)"
    "child_nodes (nodes ?s' j) = child_nodes (nodes s j)"
    "policy_vector (nodes ?s' j) = policy_vector (nodes s j)"
    "policy_vector_legal_moves (nodes ?s' j) = policy_vector_legal_moves (nodes s j)"
    "next_id ?s' = next_id s" for j
    by simp_all
  show ?thesis
    using assms unfolding refs_ok_def terminal_inv_def f by simp
qed

text \<open>
  C9, as stated: the \<open>policy_vector\<close> of a terminal node is never populated. The search
  itself refutes it. In the example game with two iterations and the noise
  \<open>[1/2, 1/2]\<close> in each, both iterations select the child of position 1, a node with no legal
  move. The second one finds it visited and without scores, calls \<^verbatim>\<open>get_policy_vector\<close>
  on it and leaves it with a \<open>policy_vector\<close> of 218 zeros, no legal-move score and no
  child.
\<close>

theorem terminal_policy_vector_counterexample:
  "MCTS toy_engine toy_empty 0 None 2 toy_noise_even = Some (Inr (toy_revisited, 0)) \<and>
   legal_moves toy_engine (game (nodes toy_revisited 1)) = [] \<and>
   terminal_game_state (nodes toy_revisited 1) \<and>
   child_nodes (nodes toy_revisited 1) = [] \<and>
   policy_vector_legal_moves (nodes toy_revisited 1) = Some [] \<and>
   policy_vector (nodes toy_revisited 1) = Some (replicate 218 0)"
  by (simp add: toy_revisited_def toy_noise_even_def toy_eval)

text \<open>
  C9, amended. Throughout the search a terminal node (a constructed node whose game has no
  legal move) keeps an empty child list, and its tensors are absent or hold no score: the
  legal-move scores are empty and the \<open>policy_vector\<close> is \<open>MAX_MOVES\<close> zeros. This
  holds after \<^verbatim>\<open>get_policy_vector\<close> on any constructed node and after a whole run of
  \<^verbatim>\<open>MCTS\<close>, from a store where it holds and whose child references denote constructed
  nodes. A node built by \<^verbatim>\<open>__init__\<close> has its terminal flag set exactly when its game has
  no legal move, and \<^verbatim>\<open>MCTS\<close> on a root with the flag set returns the root at once, with
  no call of \<^verbatim>\<open>get_policy_vector\<close> and no iteration.
\<close>

theorem terminal_nodes_never_expanded:
  assumes "refs_ok s" and "terminal_inv E s"
    and "\<forall>r. starting_node = Some r \<longrightarrow> r < next_id s"
  shows "(\<forall>n s1. n < next_id s \<and> get_policy_vector E s n = Inr s1 \<longrightarrow>
            refs_ok s1 \<and> terminal_inv E s1) \<and>
         (\<forall>s' root_node.
            MCTS E s game0 starting_node iterations dirichlet = Some (Inr (s', root_node)) \<longrightarrow>
              refs_ok s' \<and> terminal_inv E s') \<and>
         terminal_game_state (Game_Node_init E g mv parent)
           = (legal_moves E (game (Game_Node_init E g mv parent)) = []) \<and>
         (terminal_game_state (Game_Node_init E game0 None None) \<longrightarrow>
            MCTS E s game0 None iterations dirichlet
              = Some (Inr (fst (new_Game_Node E s game0 None None), next_id s))) \<and>
         (\<forall>r. terminal_game_state (nodes s r) \<longrightarrow>
            MCTS E s game0 (Some r) iterations dirichlet
              = Some (Inr (s\<lparr> nodes := (nodes s)(r := (nodes s r)\<lparr> parent_node := None \<rparr>) \<rparr>, r)))"
proof -
  have a: "refs_ok s1 \<and> terminal_inv E s1"
    if "n < next_id s" "get_policy_vector E s n = Inr s1" for n s1
    using terminal_get_policy_vector[OF that(2) _ that(1)] assms(1,2) by simp
  have b: "refs_ok s' \<and> terminal_inv E s'"
    if run: "MCTS E s game0 starting_node iterations dirichlet = Some (Inr (s', root_node))"
    for s' root_node
  proof (rule MCTS_invariant[where J = "\<lambda>t. refs_ok t \<and> terminal_inv E t" and W = "\<lambda>a n. n < a",
        OF _ _ _ _ _ _ _ _ run])
    show "refs_ok s' \<and> terminal_inv E s'"
      if "refs_ok s \<and> terminal_inv E s" "n < next_id s" "get_policy_vector E s n = Inr s'"
      for s n s'
      using terminal_get_policy_vector[OF that(3,1,2)] .
    show "c < next_id s"
      if "refs_ok s \<and> terminal_inv E s" "n < next_id s" "select_child s n xs = Inr c"
      for s n xs c
      using that select_child_member[OF that(3)] by (auto simp: refs_ok_def)
    show "refs_ok (s\<lparr> nodes := (nodes s)(i := back_propagate_step E r lt (nodes s i)) \<rparr>) \<and>
          terminal_inv E (s\<lparr> nodes := (nodes s)(i := back_propagate_step E r lt (nodes s i)) \<rparr>)"
      if "refs_ok s \<and> terminal_inv E s" for s i r lt
      using that by (rule terminal_step)
    show "refs_ok (fst (new_Game_Node E s game0 None None)) \<and>
          terminal_inv E (fst (new_Game_Node E s game0 None None))"
      using assms(1,2)
      by (auto simp: refs_ok_def terminal_inv_def new_Game_Node_def Game_Node_init_def Let_def
          less_Suc_eq)
    show "refs_ok (s\<lparr> nodes := (nodes s)(r := (nodes s r)\<lparr> parent_node := None \<rparr>) \<rparr>) \<and>
          terminal_inv E (s\<lparr> nodes := (nodes s)(r := (nodes s r)\<lparr> parent_node := None \<rparr>) \<rparr>)"
      for r
      using assms(1,2) by (auto simp: refs_ok_def terminal_inv_def)
    show "r < next_id s" if "starting_node = Some r" for r
      using assms(3) that by simp
  qed simp_all
  have c: "terminal_game_state (Game_Node_init E g mv parent)
           = (legal_moves E (game (Game_Node_init E g mv parent)) = [])"
    by (simp add: Game_Node_init_def Let_def)
  have d: "MCTS E s game0 None iterations dirichlet
              = Some (Inr (fst (new_Game_Node E s game0 None None), next_id s))"
    if "terminal_game_state (Game_Node_init E game0 None None)"
    using that by (simp add: MCTS_def new_Game_Node_def)
  have e: "MCTS E s game0 (Some r) iterations dirichlet
              = Some (Inr (s\<lparr> nodes := (nodes s)(r := (nodes s r)\<lparr> parent_node := None \<rparr>) \<rparr>, r))"
    if "terminal_game_state (nodes s r)" for r
    using that by (simp add: MCTS_def)
  from a b c d e show ?thesis by blast
qed

theorem terminal_nodes_never_expanded_witness:
  "refs_ok toy_empty \<and> terminal_inv toy_engine toy_empty \<and>
   (\<exists>s'. MCTS toy_engine toy_empty 0 None 2 (\<lambda>k. [1 / 2, 1 / 2]) = Some (Inr (s', 0)) \<and>
      refs_ok s' \<and> terminal_inv toy_engine s' \<and> next_id s' = 3 \<and>
      legal_moves toy_engine (game (nodes s' 1)) = [] \<and> child_nodes (nodes s' 1) = [])"
proof -
  have r: "refs_ok toy_empty" and t: "terminal_inv toy_engine toy_empty"
    by (simp_all add: refs_ok_def terminal_inv_def toy_empty_def)
  have n: "\<forall>r. (None :: nat option) = Some r \<longrightarrow> r < next_id toy_empty" by simp
  obtain s' where run: "MCTS toy_engine toy_empty 0 None 2 (\<lambda>k. [1 / 2, 1 / 2]) = Some (Inr (s', 0))"
    by (simp add: toy_eval)
  from terminal_nodes_never_expanded[OF r t n, where ?game0.0 = 0 and iterations = 2
      and dirichlet = "\<lambda>k. [1 / 2, 1 / 2]"] run
  have post: "refs_ok s' \<and> terminal_inv toy_engine s'" by blast
  have "next_id s' = 3" "legal_moves toy_engine (game (nodes s' 1)) = []"
    "child_nodes (nodes s' 1) = []"
    using run by (auto simp: toy_eval)
  with r t run post show ?thesis by blast
qed

subsection \<open>The descent after \<^verbatim>\<open>get_policy_vector\<close>\<close>

lemma MCTS_iteration_leaf:
  assumes "policy_vector_legal_moves (nodes s root_node) = Some scores"
    and "tf_add scores noise = Inr noisy"
    and "select_child s root_node noisy = Inr n"
    and "descend E s n = Some (Inr (s2, leaf))"
  shows "MCTS_iteration E s root_node noise =
           map_option Inr (back_propagate E s2 (Some leaf) (value_evaluation (nodes s2 leaf))
             (move_turn E (game (nodes s2 leaf))))"
  using assms by (simp add: MCTS_iteration_def Let_def)

lemma get_policy_vector_new_children:
  assumes run: "get_policy_vector E s n = Inr s1"
    and n: "n < next_id s" and e: "child_nodes (nodes s n) = []"
    and c: "c \<in> set (child_nodes (nodes s1 n))"
  shows "number_of_visits (nodes s1 c) = 0 \<and> c \<noteq> n \<and> parent_node (nodes s1 c) = Some n"
proof -
  from get_policy_vector_result[OF run] obtain legal where
    s1: "s1 = (expand E s n)\<lparr> nodes := (nodes (expand E s n))(n := (nodes (expand E s n) n)
             \<lparr> policy_vector := Some (legal @ replicate
                  (MAX_MOVES - length (legal_moves E (game (nodes (expand E s n) n)))) 0),
               policy_vector_legal_moves := Some legal \<rparr>) \<rparr>"
    by blast
  note ex = expand_fresh[OF n e, of E]
  have ch: "child_nodes (nodes s1 n)
              = [next_id s ..< next_id s + length (legal_moves E (game (nodes s n)))]"
    unfolding s1 by (simp add: ex)
  with c have r: "next_id s \<le> c" "c < next_id s + length (legal_moves E (game (nodes s n)))"
    by simp_all
  with n have ne: "c \<noteq> n" by simp
  then have "nodes s1 c = nodes (expand E s n) c" unfolding s1 by simp
  also have "\<dots> = child_of E (nodes s n) n (legal_moves E (game (nodes s n)) ! (c - next_id s))"
    using r ne by (simp add: ex)
  finally show ?thesis using ne by simp
qed

text \<open>
  C2, as stated: when the descent reaches a visited node without a policy vector, the
  driver computes the vector and stops there, and that node is the evaluation point. The
  \<^verbatim>\<open>else\<close> branch has no \<^verbatim>\<open>break\<close>: the loop runs again at the same node, which now has
  scores, and moves on to a child. In the example game, after one iteration the node of
  position 2 is visited and has no scores; the descent from it ends at its new child, the
  node 3, whose value evaluation (one half, not the three quarters of node 2) is
  backpropagated from node 3.
\<close>

theorem descend_stops_counterexample:
  "0 < number_of_visits (nodes toy_once 2) \<and>
   policy_vector_legal_moves (nodes toy_once 2) = None \<and>
   descend toy_engine toy_once 2 = Some (Inr (toy_descended, 3)) \<and>
   policy_vector_legal_moves (nodes toy_descended 2) = Some [1 / 2 + 1 / 218] \<and>
   value_evaluation (nodes toy_descended 3) = 1 / 2 \<and>
   value_evaluation (nodes toy_descended 2) = 3 / 4 \<and>
   MCTS_iteration toy_engine toy_once 0 [0, 1] = Some (Inr toy_twice) \<and>
   number_of_visits (nodes toy_twice 3) = 1 \<and>
   number_of_visits (nodes toy_twice 2) = 2"
  by (simp add: toy_descended_def toy_twice_def toy_once_def toy_eval)

text \<open>
  C2, amended. In every MCTS iteration, when the descent reaches a constructed node with a
  visit that has no computed policy vector, the driver computes that node's policy vector
  and goes round the loop again at the same node. If the node is terminal the descent
  ends there and that node is the evaluation point. Otherwise the descent moves on to the
  child of maximal score; when that child has no visit, as every child created by this
  call has, the child is the evaluation point. The value evaluation of the node where the
  descent ends is the one that is backpropagated, starting from that node.
\<close>

theorem descend_after_policy_vector:
  assumes "n < next_id s"
    and "0 < number_of_visits (nodes s n)"
    and "policy_vector_legal_moves (nodes s n) = None"
    and "get_policy_vector E s n = Inr s1"
  shows "(\<exists>scores. policy_vector_legal_moves (nodes s1 n) = Some scores) \<and>
         descend E s n = descend E s1 n \<and>
         (terminal_game_state (nodes s n) \<longrightarrow> descend E s n = Some (Inr (s1, n))) \<and>
         (\<forall>scores c.
            \<not> terminal_game_state (nodes s n) \<and>
            policy_vector_legal_moves (nodes s1 n) = Some scores \<and>
            select_child s1 n scores = Inr c \<longrightarrow>
              c = child_nodes (nodes s1 n) ! argmax scores \<and>
              descend E s n = descend E s1 c \<and>
              (number_of_visits (nodes s1 c) = 0 \<longrightarrow> descend E s n = Some (Inr (s1, c))) \<and>
              (child_nodes (nodes s n) = [] \<longrightarrow>
                 descend E s n = Some (Inr (s1, c)) \<and> c \<noteq> n \<and>
                 parent_node (nodes s1 c) = Some n)) \<and>
         (\<forall>root_node noise scores0 noisy s2 leaf.
            policy_vector_legal_moves (nodes s root_node) = Some scores0 \<and>
            tf_add scores0 noise = Inr noisy \<and>
            select_child s root_node noisy = Inr n \<and>
            descend E s n = Some (Inr (s2, leaf)) \<longrightarrow>
              MCTS_iteration E s root_node noise =
                map_option Inr (back_propagate E s2 (Some leaf) (value_evaluation (nodes s2 leaf))
                  (move_turn E (game (nodes s2 leaf)))))"
proof -
  note fr = get_policy_vector_frame[OF assms(4), rule_format, OF assms(1)]
  have v1: "0 < number_of_visits (nodes s1 n)" using fr assms(2) by simp
  have t1: "terminal_game_state (nodes s1 n) = terminal_game_state (nodes s n)" using fr by simp
  from get_policy_vector_result[OF assms(4)] obtain legal where
    "s1 = (expand E s n)\<lparr> nodes := (nodes (expand E s n))(n := (nodes (expand E s n) n)
             \<lparr> policy_vector := Some (legal @ replicate
                  (MAX_MOVES - length (legal_moves E (game (nodes (expand E s n) n)))) 0),
               policy_vector_legal_moves := Some legal \<rparr>) \<rparr>"
    by blast
  then have pl: "policy_vector_legal_moves (nodes s1 n) = Some legal" by simp
  have a: "descend E s n = descend E s1 n"
    using assms(2,3,4) by (rule descend_compute)
  have b: "descend E s n = Some (Inr (s1, n))" if "terminal_game_state (nodes s n)"
    using descend_terminal[OF v1 pl, of E] that t1 a by simp
  have c: "c = child_nodes (nodes s1 n) ! argmax scores \<and>
           descend E s n = descend E s1 c \<and>
           (number_of_visits (nodes s1 c) = 0 \<longrightarrow> descend E s n = Some (Inr (s1, c))) \<and>
           (child_nodes (nodes s n) = [] \<longrightarrow>
              descend E s n = Some (Inr (s1, c)) \<and> c \<noteq> n \<and> parent_node (nodes s1 c) = Some n)"
    if nt: "\<not> terminal_game_state (nodes s n)"
      and sc: "policy_vector_legal_moves (nodes s1 n) = Some scores"
      and sel: "select_child s1 n scores = Inr c"
    for scores c
  proof -
    have idx: "c = child_nodes (nodes s1 n) ! argmax scores"
      using sel by (auto simp: select_child_def split: if_splits)
    have go: "descend E s n = descend E s1 c"
      using descend_child[OF v1 sc _ sel, of E] nt t1 a by simp
    have stop: "descend E s n = Some (Inr (s1, c))" if "number_of_visits (nodes s1 c) = 0"
      using go descend_stop[OF that, of E] by simp
    have fresh: "descend E s n = Some (Inr (s1, c)) \<and> c \<noteq> n \<and> parent_node (nodes s1 c) = Some n"
      if "child_nodes (nodes s n) = []"
      using get_policy_vector_new_children[OF assms(4,1) that select_child_member[OF sel]] stop
      by simp
    from idx go stop fresh show ?thesis by blast
  qed
  have d: "MCTS_iteration E s root_node noise =
                map_option Inr (back_propagate E s2 (Some leaf) (value_evaluation (nodes s2 leaf))
                  (move_turn E (game (nodes s2 leaf))))"
    if "policy_vector_legal_moves (nodes s root_node) = Some scores0"
      "tf_add scores0 noise = Inr noisy" "select_child s root_node noisy = Inr n"
      "descend E s n = Some (Inr (s2, leaf))"
    for root_node noise scores0 noisy s2 leaf
    using that by (rule MCTS_iteration_leaf)
  from pl a b c d show ?thesis by blast
qed

theorem descend_after_policy_vector_witness:
  "2 < next_id toy_once \<and> 0 < number_of_visits (nodes toy_once 2) \<and>
   policy_vector_legal_moves (nodes toy_once 2) = None \<and>
   \<not> terminal_game_state (nodes toy_once 2) \<and> child_nodes (nodes toy_once 2) = [] \<and>
   (\<exists>s1 scores.
      get_policy_vector toy_engine toy_once 2 = Inr s1 \<and>
      policy_vector_legal_moves (nodes s1 2) = Some scores \<and>
      select_child s1 2 scores = Inr 3 \<and>
      descend toy_engine toy_once 2 = Some (Inr (s1, 3)) \<and>
      parent_node (nodes s1 3) = Some 2)"
proof -
  have once: "toy_once = \<lparr> nodes = (\<lambda>i. Game_Node_init toy_engine 0 None None)
       (1 := Game_Node_init toy_engine 1 (Some 1) (Some 0),
        2 := (Game_Node_init toy_engine 2 (Some 2) (Some 0))\<lparr> number_of_visits := 1 \<rparr>,
        0 := (Game_Node_init toy_engine 0 None None)
               \<lparr> child_nodes := [1, 2], visited_boards := [1, 2], number_of_visits := 1,
                 policy_vector := Some ([1 + 1 / 218, 3 / 4 + 1 / 218] @ replicate 216 0),
                 policy_vector_legal_moves := Some [1 + 1 / 218, 3 / 4 + 1 / 218] \<rparr>),
       next_id = 3 \<rparr>"
    by (simp add: toy_once_def toy_eval fun_upd_twist)
  have h1: "2 < next_id toy_once" and h2: "0 < number_of_visits (nodes toy_once 2)"
    and h3: "policy_vector_legal_moves (nodes toy_once 2) = None"
    and h4: "\<not> terminal_game_state (nodes toy_once 2)"
    and h5: "child_nodes (nodes toy_once 2) = []"
    by (simp_all add: once Game_Node_init_def toy_engine_def Let_def)
  obtain s1 where run: "get_policy_vector toy_engine toy_once 2 = Inr s1"
    by (simp add: once toy_eval)
  have sc: "policy_vector_legal_moves (nodes s1 2) = Some [1 / 2 + 1 / 218]"
    and sel: "select_child s1 2 [1 / 2 + 1 / 218] = Inr 3"
    using run by (auto simp: once toy_eval)
  from descend_after_policy_vector[OF h1 h2 h3 run] h4 h5 sc sel
  have "descend toy_engine toy_once 2 = Some (Inr (s1, 3)) \<and> parent_node (nodes s1 3) = Some 2"
    by blast
  with h1 h2 h3 h4 h5 run sc sel show ?thesis by blast
qed

subsection \<open>\<^verbatim>\<open>make_a_move\<close>\<close>

lemma make_a_move_loop_first:
  "(case make_a_move_loop s mv cs of
      None \<Rightarrow> \<forall>c \<in> set cs. move (nodes s c) \<noteq> mv
    | Some c \<Rightarrow>
        \<exists>i < length cs. c = cs ! i \<and> move (nodes s c) = mv \<and>
          (\<forall>j < i. move (nodes s (cs ! j)) \<noteq> mv))"
proof (induction cs)
  case Nil
  then show ?case by simp
next
  case (Cons x cs)
  show ?case
  proof (cases "mv = move (nodes s x)")
    case True
    then show ?thesis by auto
  next
    case False
    show ?thesis
    proof (cases "make_a_move_loop s mv cs")
      case None
      with Cons False show ?thesis by auto
    next
      case (Some c)
      with Cons obtain i where i: "i < length cs" "c = cs ! i" "move (nodes s c) = mv"
        "\<forall>j < i. move (nodes s (cs ! j)) \<noteq> mv"
        by auto
      have "\<forall>j < Suc i. move (nodes s ((x # cs) ! j)) \<noteq> mv"
        using i(4) False by (auto simp: nth_Cons')
      with i Some False show ?thesis
        by (auto intro!: exI[of _ "Suc i"])
    qed
  qed
qed

text \<open>
  C10. For every node and every move value, \<^verbatim>\<open>make_a_move\<close> returns the first child
  whose move equals the given one (no earlier child has that move), and returns \<^verbatim>\<open>None\<close>
  when no child has that move, in particular when there are no children. It raises
  nothing and, reading the store only, changes no state.
\<close>

theorem make_a_move_first_match:
  "(case make_a_move s self mv of
      None \<Rightarrow> \<forall>c \<in> set (child_nodes (nodes s self)). move (nodes s c) \<noteq> mv
    | Some c \<Rightarrow>
        \<exists>i < length (child_nodes (nodes s self)).
          c = child_nodes (nodes s self) ! i \<and> move (nodes s c) = mv \<and>
          (\<forall>j < i. move (nodes s (child_nodes (nodes s self) ! j)) \<noteq> mv)) \<and>
   (child_nodes (nodes s self) = [] \<longrightarrow> make_a_move s self mv = None)"
  using make_a_move_loop_first[where s = s and mv = mv and cs = "child_nodes (nodes s self)"]
  by (auto simp: make_a_move_def)

theorem make_a_move_first_match_witness:
  "make_a_move toy_twins 0 (Some 7) = Some 1 \<and>
   (\<exists>i < length (child_nodes (nodes toy_twins 0)).
      1 = child_nodes (nodes toy_twins 0) ! i \<and> move (nodes toy_twins 1) = Some 7 \<and>
      (\<forall>j < i. move (nodes toy_twins (child_nodes (nodes toy_twins 0) ! j)) \<noteq> Some 7)) \<and>
   make_a_move toy_twins 0 (Some 9) = None \<and>
   make_a_move toy_twins 1 (Some 7) = None"
proof -
  have a: "make_a_move toy_twins 0 (Some 7) = Some 1"
    and b: "make_a_move toy_twins 0 (Some 9) = None"
    and c: "make_a_move toy_twins 1 (Some 7) = None"
    by (simp_all add: make_a_move_def toy_twins_def Game_Node_init_def Let_def)
  from make_a_move_first_match[where s = toy_twins and self = 0 and mv = "Some 7"] a b c show ?thesis by simp
qed

end
